theory Spec2Isabelle
  imports Main "HOL-Library.AList"
begin

section \<open>Values shared by the whole development\<close>

text \<open>
  The library wraps the browser's IndexedDB engine.  The engine itself is not part of the
  repository; wherever the wrapper's behaviour depends on what the engine answers, that
  answer is an input of the model (an event, a cursor stream, a request outcome).

  A JavaScript \<open>number\<close> used as a page size or page offset is modelled as an integer or
  \<open>Infinity\<close> (the default of \<open>limit\<close> in \<open>src/core.ts\<close>).  Fractions, \<open>NaN\<close> and
  \<open>-Infinity\<close> are outside the model.
\<close>

datatype number = Num int | Infinity

text \<open>\<open>c < n\<close> for a finite counter \<open>c\<close> and a number \<open>n\<close>.\<close>

fun lt_number :: "int \<Rightarrow> number \<Rightarrow> bool" where
  "lt_number c (Num n) = (c < n)"
| "lt_number c Infinity = True"

text \<open>JavaScript truthiness of an optional number: \<open>undefined\<close> and \<open>0\<close> are falsy.\<close>

fun truthy :: "number option \<Rightarrow> bool" where
  "truthy None = False"
| "truthy (Some (Num n)) = (n \<noteq> 0)"
| "truthy (Some Infinity) = True"

datatype IDBCursorDirection = Next | NextUnique | Prev | PrevUnique

text \<open>The exceptions of the engine that the wrapper can meet.\<close>

datatype dom_exception =
    NotFoundError | ConstraintError | InvalidAccessError | InvalidStateError
  | VersionError | AbortError | DataError | UnknownError

section \<open>The range cursor executor (\<open>findByIndexRange\<close>)\<close>

text \<open>
  What the engine delivers to \<open>cursorRequest\<close>, one event per \<open>openCursor\<close> or
  \<open>continue()\<close>: a cursor positioned on a record and the rest of the scan, the \<open>null\<close>
  cursor at the end of the scan, or an error event.  The stream is lazy: what follows an
  entry is delivered only if the handler calls \<open>continue()\<close>.
\<close>

datatype ('v, 'e) cursor =
    Entry 'v "('v, 'e) cursor"
  | End
  | Failure 'e

text \<open>A scan that yields the records \<open>xs\<close> in order and then ends with \<open>fin\<close>.\<close>

fun scan :: "'v list \<Rightarrow> ('v, 'e) cursor \<Rightarrow> ('v, 'e) cursor" where
  "scan [] fin = fin"
| "scan (x # xs) fin = Entry x (scan xs fin)"

text \<open>The options object of \<open>findByIndexRange\<close>; \<open>None\<close> is an omitted property.\<close>

record 'q range_options =
  query :: "'q option"
  direction :: "IDBCursorDirection option"
  limit :: "number option"
  offset :: "number option"

text \<open>
  An index of the engine answers a query (\<open>None\<close> is \<open>null\<close>/\<open>undefined\<close>, the whole
  index) and a direction with a cursor stream.  \<open>openCursor(query, direction)\<close> is the
  engine's method; its \<open>direction\<close> parameter has the default value \<open>"next"\<close>, which is
  what an \<open>undefined\<close> argument selects.
\<close>

type_synonym ('q, 'v, 'e) idb_index =
  "'q option \<Rightarrow> IDBCursorDirection \<Rightarrow> ('v, 'e) cursor"

definition openCursor ::
  "('q, 'v, 'e) idb_index \<Rightarrow> 'q option \<Rightarrow> IDBCursorDirection option \<Rightarrow> ('v, 'e) cursor" where
  "openCursor ix q d = ix q (case d of None \<Rightarrow> Next | Some d' \<Rightarrow> d')"

text \<open>
  An object store as a read transaction sees it: its records by primary key and its
  indexes by name.  \<open>store.get(key)\<close> succeeds with the record or with \<open>undefined\<close>;
  \<open>store.index(name)\<close> throws \<open>NotFoundError\<close> for an unknown name.
\<close>

record ('k, 'q, 'v, 'e) object_store =
  records :: "'k \<rightharpoonup> 'v"
  indexes :: "string \<rightharpoonup> ('q, 'v, 'e) idb_index"

type_synonym ('k, 'q, 'v, 'e) database = "string \<rightharpoonup> ('k, 'q, 'v, 'e) object_store"

text \<open>The failures a call of the public interface can reject with.\<close>

datatype 'e failure =
    ConnectionFailed 'e
  | Thrown dom_exception
  | RequestFailed 'e
  | TransactionFailed "'e option"
  | TransactionAborted

text \<open>
  \<open>IndexedDBManager.getTransaction\<close> followed by \<open>transaction.objectStore(storeName)\<close>:
  the connection may be unavailable, and \<open>db.transaction\<close> throws \<open>NotFoundError\<close> for
  a store the database does not have.
\<close>

definition getTransaction ::
  "'e + ('k, 'q, 'v, 'e) database \<Rightarrow> string \<Rightarrow> 'e failure + ('k, 'q, 'v, 'e) object_store" where
  "getTransaction conn storeName =
     (case conn of
        Inl e \<Rightarrow> Inl (ConnectionFailed e)
      | Inr db \<Rightarrow> (case db storeName of
                    None \<Rightarrow> Inl (Thrown NotFoundError)
                  | Some store \<Rightarrow> Inr store))"

definition index :: "('k, 'q, 'v, 'e) object_store \<Rightarrow> string \<Rightarrow> 'e failure + ('q, 'v, 'e) idb_index" where
  "index store indexName =
     (case indexes store indexName of
        None \<Rightarrow> Inl (Thrown NotFoundError)
      | Some ix \<Rightarrow> Inr ix)"

subsection \<open>\<open>src/core.ts\<close>\<close>

text \<open>
  The \<open>onsuccess\<close>/\<open>onerror\<close> handlers of the cursor request, with the mutable
  \<open>results\<close>, \<open>count\<close> and \<open>advanced\<close> as arguments.  \<open>Inr\<close> is \<open>resolve(results)\<close>,
  \<open>Inl\<close> is \<open>reject(cursorRequest.error)\<close>.  Exceptions thrown by the engine inside
  the success handler (the \<open>catch\<close> around its body) are not modelled.
\<close>

fun cursor_loop ::
  "number \<Rightarrow> number \<Rightarrow> 'v list \<Rightarrow> int \<Rightarrow> int \<Rightarrow> ('v, 'e) cursor \<Rightarrow> 'e failure + 'v list" where
  "cursor_loop lim off results count advanced (Entry v rest) =
     (if lt_number advanced off then cursor_loop lim off results count (advanced + 1) rest
      else if lt_number count lim then cursor_loop lim off (results @ [v]) (count + 1) advanced rest
      else Inr results)"
| "cursor_loop lim off results count advanced End = Inr results"
| "cursor_loop lim off results count advanced (Failure e) = Inl (RequestFailed e)"

definition findByIndexRange ::
  "'e + ('k, 'q, 'v, 'e) database \<Rightarrow> string \<Rightarrow> string \<Rightarrow> 'q range_options option
     \<Rightarrow> 'e failure + 'v list" where
  "findByIndexRange conn storeName indexName options =
     (let opts = (case options of
                    None \<Rightarrow> \<lparr>query = None, direction = None, limit = None, offset = None\<rparr>
                  | Some oo \<Rightarrow> oo);
          query' = query opts;
          direction' = (case direction opts of None \<Rightarrow> Next | Some d \<Rightarrow> d);
          limit' = (case limit opts of None \<Rightarrow> Infinity | Some l \<Rightarrow> l);
          offset' = (case offset opts of None \<Rightarrow> Num 0 | Some off \<Rightarrow> off)
      in case getTransaction conn storeName of
           Inl e \<Rightarrow> Inl e
         | Inr store \<Rightarrow>
             (case index store indexName of
                Inl e \<Rightarrow> Inl e
              | Inr ix \<Rightarrow> cursor_loop limit' offset' [] 0 0 (openCursor ix query' (Some direction'))))"

subsection \<open>The entry-point class (\<open>src/index.ts\<close>)\<close>

text \<open>
  The same query in the class the package exports.  It tests \<open>options.offset\<close> and
  \<open>options.limit\<close> for truthiness before comparing, and passes \<open>options.query\<close> and
  \<open>options.direction\<close> to the engine as they are.
\<close>

text \<open>
  \<open>c < n\<close> and \<open>c >= n\<close> for an optional number; both are \<open>false\<close> against
  \<open>undefined\<close>.
\<close>

fun lt_opt :: "int \<Rightarrow> number option \<Rightarrow> bool" where
  "lt_opt c None = False"
| "lt_opt c (Some n) = lt_number c n"

fun ge_opt :: "int \<Rightarrow> number option \<Rightarrow> bool" where
  "ge_opt c None = False"
| "ge_opt c (Some (Num n)) = (c \<ge> n)"
| "ge_opt c (Some Infinity) = False"

fun entry_cursor_loop ::
  "number option \<Rightarrow> number option \<Rightarrow> 'v list \<Rightarrow> int \<Rightarrow> int \<Rightarrow> ('v, 'e) cursor
     \<Rightarrow> 'e failure + 'v list" where
  "entry_cursor_loop lim off results count skipped (Entry v rest) =
     (if truthy off \<and> lt_opt skipped off
        then entry_cursor_loop lim off results count (skipped + 1) rest
      else if truthy lim \<and> ge_opt count lim then Inr results
      else entry_cursor_loop lim off (results @ [v]) (count + 1) skipped rest)"
| "entry_cursor_loop lim off results count skipped End = Inr results"
| "entry_cursor_loop lim off results count skipped (Failure e) = Inl (RequestFailed e)"

definition entry_findByIndexRange ::
  "'e + ('k, 'q, 'v, 'e) database \<Rightarrow> string \<Rightarrow> string \<Rightarrow> 'q range_options option
     \<Rightarrow> 'e failure + 'v list" where
  "entry_findByIndexRange conn storeName indexName options =
     (let opts = (case options of
                    None \<Rightarrow> \<lparr>query = None, direction = None, limit = None, offset = None\<rparr>
                  | Some oo \<Rightarrow> oo)
      in case getTransaction conn storeName of
           Inl e \<Rightarrow> Inl e
         | Inr store \<Rightarrow>
             (case index store indexName of
                Inl e \<Rightarrow> Inl e
              | Inr ix \<Rightarrow>
                  entry_cursor_loop (limit opts) (offset opts) [] 0 0
                    (openCursor ix (query opts) (direction opts))))"


text \<open>
  The page that \<open>offset\<close> and \<open>limit\<close> cut out of what is left of a scan, given the
  counters reached so far: the entries still to skip are dropped, and as many as the limit
  still allows are kept.
\<close>

fun skip_rest :: "number \<Rightarrow> int \<Rightarrow> 'v list \<Rightarrow> 'v list" where
  "skip_rest (Num off) advanced xs = drop (nat (off - advanced)) xs"
| "skip_rest Infinity advanced xs = []"

fun keep_rest :: "number \<Rightarrow> int \<Rightarrow> 'v list \<Rightarrow> 'v list" where
  "keep_rest (Num l) count xs = take (nat (l - count)) xs"
| "keep_rest Infinity count xs = xs"

section \<open>The promise adapters and the single-request operations\<close>

text \<open>
  A promise settles once: \<open>resolve\<close> and \<open>reject\<close> on a settled promise change nothing.
\<close>

datatype ('a, 'e) promise = Pending | Fulfilled 'a | Rejected 'e

fun resolve :: "'a \<Rightarrow> ('a, 'e) promise \<Rightarrow> ('a, 'e) promise" where
  "resolve v Pending = Fulfilled v"
| "resolve v p = p"

fun reject :: "'e \<Rightarrow> ('a, 'e) promise \<Rightarrow> ('a, 'e) promise" where
  "reject e Pending = Rejected e"
| "reject e p = p"

text \<open>
  The events the engine fires on a request and on the transaction that owns it.  A
  transaction's \<open>error\<close> property may be \<open>null\<close> when its handlers run.
\<close>

datatype ('r, 'e) idb_event =
    RequestSuccess 'r
  | RequestError 'e
  | TransactionComplete
  | TransactionError "'e option"
  | TransactionAbort "'e option"

text \<open>\<open>promisifyRequest\<close>: the two handlers it installs, applied to one event.\<close>

fun promisifyRequest ::
  "('r, 'e) idb_event \<Rightarrow> ('r, 'e failure) promise \<Rightarrow> ('r, 'e failure) promise" where
  "promisifyRequest (RequestSuccess r) p = resolve r p"
| "promisifyRequest (RequestError e) p = reject (RequestFailed e) p"
| "promisifyRequest ev p = p"

text \<open>
  \<open>promisifyTransaction\<close>: \<open>oncomplete\<close> resolves, \<open>onerror\<close> rejects with
  \<open>transaction.error\<close>, \<open>onabort\<close> rejects with \<open>transaction.error\<close> or, when that is
  \<open>null\<close>, with \<open>new Error('Transaction aborted')\<close>.
\<close>

fun promisifyTransaction ::
  "('r, 'e) idb_event \<Rightarrow> (unit, 'e failure) promise \<Rightarrow> (unit, 'e failure) promise" where
  "promisifyTransaction TransactionComplete p = resolve () p"
| "promisifyTransaction (TransactionError e) p = reject (TransactionFailed e) p"
| "promisifyTransaction (TransactionAbort (Some e)) p = reject (TransactionFailed (Some e)) p"
| "promisifyTransaction (TransactionAbort None) p = reject TransactionAborted p"
| "promisifyTransaction ev p = p"

text \<open>
  \<open>Promise.all([a, b])\<close>, re-evaluated after every event: it rejects with the first
  rejection it sees and fulfils once both inputs are fulfilled.
\<close>

fun promise_all ::
  "('a, 'e) promise \<Rightarrow> ('b, 'e) promise \<Rightarrow> ('a \<times> 'b, 'e) promise \<Rightarrow> ('a \<times> 'b, 'e) promise" where
  "promise_all (Rejected e) b Pending = Rejected e"
| "promise_all a (Rejected e) Pending = Rejected e"
| "promise_all (Fulfilled x) (Fulfilled y) Pending = Fulfilled (x, y)"
| "promise_all a b p = p"

text \<open>
  The three promises of a write operation (the request's, the transaction's and their
  \<open>Promise.all\<close>) and what one event of the engine does to them.
\<close>

type_synonym ('r, 'e) write_state =
  "('r, 'e failure) promise \<times> (unit, 'e failure) promise \<times> ('r \<times> unit, 'e failure) promise"

fun write_step :: "('r, 'e) write_state \<Rightarrow> ('r, 'e) idb_event \<Rightarrow> ('r, 'e) write_state" where
  "write_step (req, txn, both) ev =
     (let req' = promisifyRequest ev req; txn' = promisifyTransaction ev txn
      in (req', txn', promise_all req' txn' both))"

definition await_both :: "('r, 'e) idb_event list \<Rightarrow> ('r \<times> unit, 'e failure) promise" where
  "await_both evs = snd (snd (foldl write_step (Pending, Pending, Pending) evs))"

fun then_promise :: "('a \<Rightarrow> 'b) \<Rightarrow> ('a, 'e) promise \<Rightarrow> ('b, 'e) promise" where
  "then_promise f Pending = Pending"
| "then_promise f (Fulfilled x) = Fulfilled (f x)"
| "then_promise f (Rejected e) = Rejected e"

text \<open>
  The write operations of \<open>src/core.ts\<close>.  \<open>evs\<close> is what the engine fires, in order, on
  the request (\<open>store.add(data)\<close>, \<open>store.put(data)\<close>, \<open>store.delete(key)\<close>,
  \<open>store.clear()\<close>) and on its transaction; the value returned is the state of the
  promise the caller holds after these events.  \<open>add\<close> and \<open>put\<close> return the first
  component of what \<open>Promise.all\<close> gives, the key of the request; \<open>delete\<close> and
  \<open>clear\<close> return nothing (the request's result is \<open>undefined\<close>, and the
  \<open>.then(() => {})\<close> on it keeps it so).
\<close>

definition add ::
  "'e + ('k, 'q, 'v, 'e) database \<Rightarrow> string \<Rightarrow> ('k, 'e) idb_event list \<Rightarrow> ('k, 'e failure) promise" where
  "add conn storeName evs =
     (case getTransaction conn storeName of
        Inl e \<Rightarrow> Rejected e
      | Inr store \<Rightarrow> then_promise fst (await_both evs))"

definition put ::
  "'e + ('k, 'q, 'v, 'e) database \<Rightarrow> string \<Rightarrow> ('k, 'e) idb_event list \<Rightarrow> ('k, 'e failure) promise" where
  "put conn storeName evs =
     (case getTransaction conn storeName of
        Inl e \<Rightarrow> Rejected e
      | Inr store \<Rightarrow> then_promise fst (await_both evs))"

definition delete ::
  "'e + ('k, 'q, 'v, 'e) database \<Rightarrow> string \<Rightarrow> (unit, 'e) idb_event list \<Rightarrow> (unit, 'e failure) promise" where
  "delete conn storeName evs =
     (case getTransaction conn storeName of
        Inl e \<Rightarrow> Rejected e
      | Inr store \<Rightarrow> then_promise (\<lambda>_. ()) (await_both evs))"

definition clear ::
  "'e + ('k, 'q, 'v, 'e) database \<Rightarrow> string \<Rightarrow> (unit, 'e) idb_event list \<Rightarrow> (unit, 'e failure) promise" where
  "clear conn storeName evs =
     (case getTransaction conn storeName of
        Inl e \<Rightarrow> Rejected e
      | Inr store \<Rightarrow> then_promise (\<lambda>_. ()) (await_both evs))"

text \<open>
  \<open>get\<close>: one request, not awaited together with its transaction.  The engine answers
  \<open>store.get(key)\<close> with a success event whose result is the record, or \<open>undefined\<close>
  (\<open>None\<close>) when the store has no record under the key.
\<close>

definition store_get :: "('k, 'q, 'v, 'e) object_store \<Rightarrow> 'k \<Rightarrow> ('v option, 'e) idb_event list" where
  "store_get store key = [RequestSuccess (records store key)]"

definition get ::
  "'e + ('k, 'q, 'v, 'e) database \<Rightarrow> string \<Rightarrow> 'k \<Rightarrow> ('v option, 'e failure) promise" where
  "get conn storeName key =
     (case getTransaction conn storeName of
        Inl e \<Rightarrow> Rejected e
      | Inr store \<Rightarrow> foldl (\<lambda>p ev. promisifyRequest ev p) Pending (store_get store key))"

section \<open>The connection manager (\<open>src/db.ts\<close>)\<close>

text \<open>
  The manager's \<open>db\<close> field together with the parts of its environment that
  \<open>getDB\<close>, \<open>openDB\<close> and \<open>close\<close> read or change: the open requests handed to the
  engine, the handles the engine has given out, and the \<open>window\<close> flag that guards the
  \<open>beforeunload\<close> listener.  A handle is a number; \<open>broken\<close> lists the handles on which
  reading \<open>objectStoreNames\<close> throws.
\<close>

record manager =
  db :: "nat option"
  opens_issued :: nat
  in_flight :: nat
  next_handle :: nat
  closed_handles :: "nat list"
  broken :: "nat list"
  window_defined :: bool
  IS_CLOSING_DB :: bool
  unload_listeners :: nat

definition isConnectionAlive :: "manager \<Rightarrow> bool" where
  "isConnectionAlive m =
     (case db m of
        None \<Rightarrow> False
      | Some h \<Rightarrow> h \<notin> set (broken m))"

text \<open>
  \<open>openDB\<close> up to the point where it waits for the engine: with a handle present it
  resolves at once with that handle, otherwise it calls \<open>indexedDB.open\<close>.
\<close>

definition openDB_call :: "manager \<Rightarrow> manager" where
  "openDB_call m =
     (case db m of
        Some h \<Rightarrow> m
      | None \<Rightarrow> m\<lparr>opens_issued := opens_issued m + 1, in_flight := in_flight m + 1\<rparr>)"

text \<open>\<open>getDB\<close> up to its \<open>await\<close>.\<close>

definition getDB_call :: "manager \<Rightarrow> manager" where
  "getDB_call m =
     (if db m = None \<or> \<not> isConnectionAlive m then openDB_call m else m)"

text \<open>
  The engine answers one open request with success: \<open>request.onsuccess\<close> stores the new
  handle, registers the \<open>beforeunload\<close> listener unless the flag is set, and resolves; the
  caller resumed after \<open>await\<close> stores the same handle again.
\<close>

definition open_succeeds :: "manager \<Rightarrow> manager" where
  "open_succeeds m =
     (if in_flight m = 0 then m
      else
        (let h = next_handle m;
             register = (window_defined m \<and> \<not> IS_CLOSING_DB m)
         in m\<lparr>db := Some h,
              in_flight := in_flight m - 1,
              next_handle := h + 1,
              IS_CLOSING_DB := (if register then True else IS_CLOSING_DB m),
              unload_listeners := (if register then unload_listeners m + 1 else unload_listeners m)\<rparr>))"

definition close :: "manager \<Rightarrow> manager" where
  "close m =
     (case db m of
        None \<Rightarrow> m
      | Some h \<Rightarrow>
          m\<lparr>closed_handles := h # closed_handles m,
            db := None,
            IS_CLOSING_DB := (if window_defined m \<and> IS_CLOSING_DB m then False else IS_CLOSING_DB m)\<rparr>)"

text \<open>A manager as its constructor leaves it, in a browser page.\<close>

definition new_manager :: manager where
  "new_manager =
     \<lparr>db = None, opens_issued = 0, in_flight = 0, next_handle = 0, closed_handles = [],
      broken = [], window_defined = True, IS_CLOSING_DB = False, unload_listeners = 0\<rparr>"

section \<open>The schema reconciler (\<open>onupgradeneeded\<close> in \<open>src/db.ts\<close>)\<close>

subsection \<open>Declared schema\<close>

datatype key_path = Path string | Paths "string list"

record IDBIndexParameters =
  unique :: "bool option"
  multiEntry :: "bool option"

record IndexSchema =
  index_name :: string
  index_keyPath :: key_path
  index_options :: "IDBIndexParameters option"

record StoreSchema =
  store_name :: string
  store_keyPath :: "key_path option"
  store_autoIncrement :: "bool option"
  store_indexes :: "IndexSchema list option"

subsection \<open>Persisted structure and the engine's structural operations\<close>

text \<open>
  What the engine persists: a version and, by name, object stores with their indexes.
  The structural methods throw as the IndexedDB standard says: creating a name that
  exists is a \<open>ConstraintError\<close>, deleting or fetching a name that does not exist is a
  \<open>NotFoundError\<close>, an auto-increment store with an empty or array key path and a
  multi-entry index with an array key path are an \<open>InvalidAccessError\<close>.  The syntax of
  key paths is not modelled.  The engine lists names in sorted order and the model in
  order of creation; the order only fixes in which order the loops below visit the names.
\<close>

record idb_index_meta =
  ix_keyPath :: key_path
  ix_unique :: bool
  ix_multiEntry :: bool

record idb_store_meta =
  os_keyPath :: "key_path option"
  os_autoIncrement :: bool
  os_indexes :: "(string \<times> idb_index_meta) list"

record idb_database =
  version :: nat
  objectStores :: "(string \<times> idb_store_meta) list"

definition objectStoreNames :: "idb_database \<Rightarrow> string list" where
  "objectStoreNames d = map fst (objectStores d)"

definition indexNames :: "idb_store_meta \<Rightarrow> string list" where
  "indexNames st = map fst (os_indexes st)"

definition is_true :: "bool option \<Rightarrow> bool" where
  "is_true b = (b = Some True)"

definition createObjectStore ::
  "string \<Rightarrow> key_path option \<Rightarrow> bool option \<Rightarrow> idb_database \<Rightarrow> dom_exception + idb_database" where
  "createObjectStore n kp ai d =
     (if n \<in> set (objectStoreNames d) then Inl ConstraintError
      else if is_true ai \<and> (case kp of None \<Rightarrow> False | Some (Path p) \<Rightarrow> p = [] | Some (Paths ps) \<Rightarrow> True)
        then Inl InvalidAccessError
      else Inr (d\<lparr>objectStores :=
                  AList.update n \<lparr>os_keyPath = kp, os_autoIncrement = is_true ai, os_indexes = []\<rparr>
                    (objectStores d)\<rparr>))"

definition deleteObjectStore :: "string \<Rightarrow> idb_database \<Rightarrow> dom_exception + idb_database" where
  "deleteObjectStore n d =
     (if n \<in> set (objectStoreNames d)
      then Inr (d\<lparr>objectStores := AList.delete n (objectStores d)\<rparr>)
      else Inl NotFoundError)"

text \<open>\<open>transaction.objectStore(name)\<close> inside the upgrade transaction.\<close>

definition objectStore :: "string \<Rightarrow> idb_database \<Rightarrow> dom_exception + idb_store_meta" where
  "objectStore n d =
     (case map_of (objectStores d) n of
        None \<Rightarrow> Inl NotFoundError
      | Some st \<Rightarrow> Inr st)"

definition new_index :: "key_path \<Rightarrow> IDBIndexParameters option \<Rightarrow> idb_index_meta" where
  "new_index kp opts =
     \<lparr>ix_keyPath = kp,
      ix_unique = (case opts of None \<Rightarrow> False | Some p \<Rightarrow> is_true (unique p)),
      ix_multiEntry = (case opts of None \<Rightarrow> False | Some p \<Rightarrow> is_true (multiEntry p))\<rparr>"

text \<open>
  \<open>store.createIndex\<close> and \<open>store.deleteIndex\<close> on the store named \<open>sn\<close>; a store that
  is gone answers \<open>InvalidStateError\<close>.
\<close>

definition createIndex ::
  "string \<Rightarrow> string \<Rightarrow> key_path \<Rightarrow> IDBIndexParameters option \<Rightarrow> idb_database
     \<Rightarrow> dom_exception + idb_database" where
  "createIndex sn n kp opts d =
     (case map_of (objectStores d) sn of
        None \<Rightarrow> Inl InvalidStateError
      | Some st \<Rightarrow>
          if n \<in> set (indexNames st) then Inl ConstraintError
          else if ix_multiEntry (new_index kp opts) \<and> (case kp of Path p \<Rightarrow> False | Paths ps \<Rightarrow> True)
            then Inl InvalidAccessError
          else Inr (d\<lparr>objectStores :=
                      AList.update sn
                        (st\<lparr>os_indexes := AList.update n (new_index kp opts) (os_indexes st)\<rparr>)
                        (objectStores d)\<rparr>))"

definition deleteIndex :: "string \<Rightarrow> string \<Rightarrow> idb_database \<Rightarrow> dom_exception + idb_database" where
  "deleteIndex sn n d =
     (case map_of (objectStores d) sn of
        None \<Rightarrow> Inl InvalidStateError
      | Some st \<Rightarrow>
          if n \<in> set (indexNames st)
          then Inr (d\<lparr>objectStores :=
                      AList.update sn (st\<lparr>os_indexes := AList.delete n (os_indexes st)\<rparr>)
                        (objectStores d)\<rparr>)
          else Inl NotFoundError)"

subsection \<open>The reconciliation\<close>

text \<open>
  The reconciliation mutates the database step by step inside the version-change
  transaction.  A step that throws leaves the loops at once; the model then returns the
  exception together with the database as the steps before it have left it.

  \<open>existingStoreNames.forEach\<close>: delete the stores the declaration does not name.  The
  list of existing names is a copy taken before the loop.
\<close>

type_synonym upgrade_result = "(dom_exception \<times> idb_database) + idb_database"

fun delete_stores :: "string list \<Rightarrow> string list \<Rightarrow> idb_database \<Rightarrow> upgrade_result" where
  "delete_stores [] desiredStoreNames d = Inr d"
| "delete_stores (storeName # rest) desiredStoreNames d =
     (if storeName \<notin> set desiredStoreNames
      then (case deleteObjectStore storeName d of
              Inl e \<Rightarrow> Inl (e, d)
            | Inr d' \<Rightarrow> delete_stores rest desiredStoreNames d')
      else delete_stores rest desiredStoreNames d)"

text \<open>\<open>existingIndexNames.forEach\<close>: delete the indexes the store's declaration omits.\<close>

fun delete_indexes ::
  "string list \<Rightarrow> string list \<Rightarrow> string \<Rightarrow> idb_database \<Rightarrow> upgrade_result" where
  "delete_indexes [] desiredIndexNames sn d = Inr d"
| "delete_indexes (indexName # rest) desiredIndexNames sn d =
     (if indexName \<notin> set desiredIndexNames
      then (case deleteIndex sn indexName d of
              Inl e \<Rightarrow> Inl (e, d)
            | Inr d' \<Rightarrow> delete_indexes rest desiredIndexNames sn d')
      else delete_indexes rest desiredIndexNames sn d)"

text \<open>
  \<open>storeSchema.indexes.forEach\<close>: create the declared indexes whose names were not among
  the existing ones; an index whose name existed is not touched.
\<close>

fun create_indexes ::
  "IndexSchema list \<Rightarrow> string list \<Rightarrow> string \<Rightarrow> idb_database \<Rightarrow> upgrade_result" where
  "create_indexes [] existingIndexNames sn d = Inr d"
| "create_indexes (indexSchema # rest) existingIndexNames sn d =
     (if index_name indexSchema \<notin> set existingIndexNames
      then (case createIndex sn (index_name indexSchema) (index_keyPath indexSchema)
                   (index_options indexSchema) d of
              Inl e \<Rightarrow> Inl (e, d)
            | Inr d' \<Rightarrow> create_indexes rest existingIndexNames sn d')
      else create_indexes rest existingIndexNames sn d)"

text \<open>
  The first half of the body of \<open>this.stores.forEach\<close>: the variable \<open>store\<close> is the
  store just created, or the existing one fetched from the transaction.
\<close>

definition create_or_fetch ::
  "string list \<Rightarrow> StoreSchema \<Rightarrow> idb_database
     \<Rightarrow> (dom_exception \<times> idb_database) + (idb_database \<times> idb_store_meta)" where
  "create_or_fetch existingStoreNames storeSchema d =
     (if store_name storeSchema \<notin> set existingStoreNames
      then (case createObjectStore (store_name storeSchema) (store_keyPath storeSchema)
                   (store_autoIncrement storeSchema) d of
              Inl e \<Rightarrow> Inl (e, d)
            | Inr d' \<Rightarrow>
                Inr (d', \<lparr>os_keyPath = store_keyPath storeSchema,
                          os_autoIncrement = is_true (store_autoIncrement storeSchema),
                          os_indexes = []\<rparr>))
      else (case objectStore (store_name storeSchema) d of
              Inl e \<Rightarrow> Inl (e, d)
            | Inr st \<Rightarrow> Inr (d, st)))"

text \<open>
  The whole body for one declared store: after the store is there, its indexes are
  reconciled, but only if the declaration has an \<open>indexes\<close> property.
\<close>

definition reconcile_store :: "string list \<Rightarrow> StoreSchema \<Rightarrow> idb_database \<Rightarrow> upgrade_result" where
  "reconcile_store existingStoreNames storeSchema d =
     (case create_or_fetch existingStoreNames storeSchema d of
        Inl x \<Rightarrow> Inl x
      | Inr (d1, store) \<Rightarrow>
          (case store_indexes storeSchema of
             None \<Rightarrow> Inr d1
           | Some idxs \<Rightarrow>
               (let existingIndexNames = indexNames store;
                    desiredIndexNames = map index_name idxs
                in case delete_indexes existingIndexNames desiredIndexNames
                          (store_name storeSchema) d1 of
                     Inl x \<Rightarrow> Inl x
                   | Inr d2 \<Rightarrow>
                       create_indexes idxs existingIndexNames (store_name storeSchema) d2)))"

fun reconcile_stores :: "string list \<Rightarrow> StoreSchema list \<Rightarrow> idb_database \<Rightarrow> upgrade_result" where
  "reconcile_stores existingStoreNames [] d = Inr d"
| "reconcile_stores existingStoreNames (storeSchema # rest) d =
     (case reconcile_store existingStoreNames storeSchema d of
        Inl x \<Rightarrow> Inl x
      | Inr d' \<Rightarrow> reconcile_stores existingStoreNames rest d')"

text \<open>The \<open>try\<close> block of \<open>onupgradeneeded\<close>.\<close>

definition schema_management :: "StoreSchema list \<Rightarrow> idb_database \<Rightarrow> upgrade_result" where
  "schema_management stores d =
     (let existingStoreNames = objectStoreNames d;
          desiredStoreNames = map store_name stores
      in case delete_stores existingStoreNames desiredStoreNames d of
           Inl x \<Rightarrow> Inl x
         | Inr d' \<Rightarrow> reconcile_stores existingStoreNames stores d')"

subsection \<open>Opening the database\<close>

text \<open>
  What \<open>openDB\<close> rejects with; the source builds these as strings from a fixed prefix
  and the message of the exception.
\<close>

datatype open_error =
    DatabaseError dom_exception
  | SchemaUpgradeFailed dom_exception
  | OpenThrewTypeError

text \<open>
  \<open>openDB\<close> of a manager without a handle, against the persisted database \<open>d\<close>, with no
  other connection open.  The result is the persisted database afterwards and the promise.
  A requested version of 0 makes \<open>indexedDB.open\<close> throw; a version below the persisted
  one is a \<open>VersionError\<close> on the request; an equal version opens without upgrade; a
  higher one runs the upgrade inside a version-change transaction that starts from \<open>d\<close>
  with the new version number.  When the \<open>catch\<close> block calls \<open>transaction.abort()\<close>
  the engine discards what the transaction has done so far (\<open>partial\<close>) and keeps \<open>d\<close>;
  the request then fails with an \<open>AbortError\<close>, whose \<open>reject\<close> comes after the one of
  the \<open>catch\<close> block.  Without an exception the transaction commits.
\<close>

definition openDB ::
  "nat \<Rightarrow> StoreSchema list \<Rightarrow> idb_database \<Rightarrow> idb_database \<times> (idb_database, open_error) promise" where
  "openDB dbVersion stores d =
     (if dbVersion = 0 then (d, reject OpenThrewTypeError Pending)
      else if dbVersion < version d then (d, reject (DatabaseError VersionError) Pending)
      else if dbVersion = version d then (d, resolve d Pending)
      else
        (case schema_management stores (d\<lparr>version := dbVersion\<rparr>) of
           Inl (e, partial) \<Rightarrow>
             (d, reject (DatabaseError AbortError) (reject (SchemaUpgradeFailed e) Pending))
         | Inr d' \<Rightarrow> (d', resolve d' Pending)))"

text \<open>A database that has never been opened.\<close>

definition fresh_database :: idb_database where
  "fresh_database = \<lparr>version = 0, objectStores = []\<rparr>"

text \<open>Looking up a persisted store and a persisted index by name.\<close>

definition persisted_store :: "idb_database \<Rightarrow> string \<Rightarrow> idb_store_meta option" where
  "persisted_store d = map_of (objectStores d)"

definition persisted_index :: "idb_database \<Rightarrow> string \<Rightarrow> string \<Rightarrow> idb_index_meta option" where
  "persisted_index d sn n =
     (case map_of (objectStores d) sn of
        None \<Rightarrow> None
      | Some st \<Rightarrow> map_of (os_indexes st) n)"

text \<open>The declared index names of a store, when the schema declares that store.\<close>

definition declared_store :: "StoreSchema list \<Rightarrow> string \<Rightarrow> StoreSchema option" where
  "declared_store stores sn = find (\<lambda>s. store_name s = sn) stores"

text \<open>
  The names of the indexes persisted for a store, and the index names a schema declares
  for it (none when the store is not declared or declared without \<open>indexes\<close>).
\<close>

definition persisted_index_names :: "idb_database \<Rightarrow> string \<Rightarrow> string list" where
  "persisted_index_names d sn =
     (case persisted_store d sn of
        None \<Rightarrow> []
      | Some st \<Rightarrow> indexNames st)"

definition declared_index_names :: "StoreSchema list \<Rightarrow> string \<Rightarrow> string list" where
  "declared_index_names stores sn =
     (case declared_store stores sn of
        None \<Rightarrow> []
      | Some ss \<Rightarrow> (case store_indexes ss of None \<Rightarrow> [] | Some idxs \<Rightarrow> map index_name idxs))"

subsection \<open>Example schemas\<close>

text \<open>
  A \<open>users\<close> store with an index \<open>by_age\<close>; the same store declared without an
  \<open>indexes\<close> property; the same store with \<open>by_age\<close> redeclared on another key path and
  unique; and a declaration that names \<open>users\<close> twice.
\<close>

definition users_with_by_age :: "StoreSchema list" where
  "users_with_by_age =
     [\<lparr>store_name = ''users'', store_keyPath = Some (Path ''id''),
       store_autoIncrement = Some True,
       store_indexes = Some [\<lparr>index_name = ''by_age'', index_keyPath = Path ''age'',
                               index_options = None\<rparr>]\<rparr>]"

definition users_without_indexes :: "StoreSchema list" where
  "users_without_indexes =
     [\<lparr>store_name = ''users'', store_keyPath = Some (Path ''id''),
       store_autoIncrement = Some True, store_indexes = None\<rparr>]"

definition users_by_age_redeclared :: "StoreSchema list" where
  "users_by_age_redeclared =
     [\<lparr>store_name = ''users'', store_keyPath = Some (Path ''id''),
       store_autoIncrement = Some True,
       store_indexes = Some [\<lparr>index_name = ''by_age'', index_keyPath = Path ''years'',
                               index_options = Some \<lparr>unique = Some True, multiEntry = None\<rparr>\<rparr>,
                             \<lparr>index_name = ''by_city'', index_keyPath = Path ''city'',
                               index_options = None\<rparr>]\<rparr>,
      \<lparr>store_name = ''products'', store_keyPath = Some (Path ''sku''),
       store_autoIncrement = None, store_indexes = None\<rparr>]"

definition users_twice :: "StoreSchema list" where
  "users_twice = users_without_indexes @ users_without_indexes"

subsection \<open>Example data and the invariant of a write\<close>

text \<open>
  A database with one store \<open>users\<close>, holding one record under key 1, whose index
  \<open>by_age\<close> answers every cursor request with the stream \<open>c\<close>.
\<close>

definition users_db :: "(nat, string) cursor \<Rightarrow> (nat, unit, nat, string) database" where
  "users_db c =
     [''users'' \<mapsto> \<lparr>records = [1 \<mapsto> 30], indexes = [''by_age'' \<mapsto> (\<lambda>q d. c)]\<rparr>]"

text \<open>
  What holds of the three promises of a write after any sequence of events: the combined
  promise is fulfilled only with both inputs fulfilled, and it is rejected whenever the
  transaction's promise is.
\<close>

definition write_inv :: "('r, 'e) write_state \<Rightarrow> bool" where
  "write_inv s = (case s of (req, txn, both) \<Rightarrow>
     (\<forall>k u. both = Fulfilled (k, u) \<longrightarrow> req = Fulfilled k \<and> txn = Fulfilled u)
   \<and> ((\<exists>e. txn = Rejected e) \<longrightarrow> (\<exists>e. both = Rejected e)))"

section \<open>Properties of the range cursor executor\<close>

lemma skip_rest_step:
  "lt_number advanced off \<Longrightarrow> skip_rest off advanced (x # xs) = skip_rest off (advanced + 1) xs"
proof (cases off)
  case (Num n)
  assume "lt_number advanced off"
  with Num have "nat (n - advanced) = Suc (nat (n - (advanced + 1)))" by simp
  with Num show ?thesis by simp
qed simp

lemma skip_rest_done:
  "\<not> lt_number advanced off \<Longrightarrow> skip_rest off advanced xs = xs"
  by (cases off) simp_all

lemma keep_rest_step:
  "lt_number count lim \<Longrightarrow> keep_rest lim count (x # xs) = x # keep_rest lim (count + 1) xs"
proof (cases lim)
  case (Num n)
  assume "lt_number count lim"
  with Num have "nat (n - count) = Suc (nat (n - (count + 1)))" by simp
  with Num show ?thesis by simp
qed simp

lemma keep_rest_done:
  "\<not> lt_number count lim \<Longrightarrow> keep_rest lim count xs = []"
  by (cases lim) simp_all

lemma cursor_loop_End:
  "cursor_loop lim off results count advanced (scan xs End) =
     Inr (results @ keep_rest lim count (skip_rest off advanced xs))"
proof (induction xs arbitrary: results count advanced)
  case Nil
  show ?case by (cases off; cases lim) simp_all
next
  case (Cons x xs)
  show ?case
  proof (cases "lt_number advanced off")
    case True
    then show ?thesis using Cons.IH by (simp add: skip_rest_step)
  next
    case notskip: False
    show ?thesis
    proof (cases "lt_number count lim")
      case True
      then show ?thesis using notskip Cons.IH[of "results @ [x]" "count + 1" advanced]
        by (simp add: skip_rest_done keep_rest_step)
    next
      case False
      then show ?thesis using notskip by (simp add: skip_rest_done keep_rest_done)
    qed
  qed
qed

lemma cursor_loop_Failure:
  "cursor_loop lim off results count advanced (scan xs (Failure e)) =
     (if keep_rest lim count (skip_rest off advanced xs) = skip_rest off advanced xs
      then Inl (RequestFailed e)
      else Inr (results @ keep_rest lim count (skip_rest off advanced xs)))"
proof (induction xs arbitrary: results count advanced)
  case Nil
  show ?case by (cases off; cases lim) simp_all
next
  case (Cons x xs)
  show ?case
  proof (cases "lt_number advanced off")
    case True
    then show ?thesis using Cons.IH by (simp add: skip_rest_step)
  next
    case notskip: False
    show ?thesis
    proof (cases "lt_number count lim")
      case True
      then show ?thesis using notskip Cons.IH[of "results @ [x]" "count + 1" advanced]
        by (simp add: skip_rest_done keep_rest_step)
    next
      case False
      then show ?thesis using notskip by (simp add: skip_rest_done keep_rest_done)
    qed
  qed
qed

lemma findByIndexRange_resolved:
  assumes "conn = Inr dbase" "dbase storeName = Some store" "indexes store indexName = Some ix"
  shows "findByIndexRange conn storeName indexName (Some opts) =
           cursor_loop (case limit opts of None \<Rightarrow> Infinity | Some l \<Rightarrow> l)
             (case offset opts of None \<Rightarrow> Num 0 | Some off \<Rightarrow> off) [] 0 0
             (ix (query opts) (case direction opts of None \<Rightarrow> Next | Some d \<Rightarrow> d))"
  using assms
  by (simp add: findByIndexRange_def getTransaction_def index_def openCursor_def Let_def)

text \<open>
  Claim C1.  When the scan of the index for the requested range and direction yields the
  records \<open>xs\<close> and then ends, \<open>findByIndexRange\<close> with an offset \<open>off \<ge> 0\<close> and a
  limit \<open>l\<close> resolves with \<open>xs\<close> sliced at \<open>[off, off + l)\<close>, which has
  \<open>max 0 (min l (length xs - off))\<close> records.  (The slice is right for a negative \<open>l\<close>
  too, where it is empty, so \<open>0 \<le> l\<close> is not needed as a hypothesis.)
\<close>

theorem findByIndexRange_returns_slice:
  assumes conn: "conn = Inr dbase" "dbase storeName = Some store"
              "indexes store indexName = Some ix"
      and scan: "ix (query opts) (case direction opts of None \<Rightarrow> Next | Some d \<Rightarrow> d) = scan xs End"
      and off: "offset opts = Some (Num off)" "0 \<le> off"
      and lim: "limit opts = Some (Num l)"
  shows "findByIndexRange conn storeName indexName (Some opts)
           = Inr (take (nat l) (drop (nat off) xs))
       \<and> int (length (take (nat l) (drop (nat off) xs)))
           = max 0 (min l (int (length xs) - off))"
proof -
  have "findByIndexRange conn storeName indexName (Some opts) =
          Inr (take (nat l) (drop (nat off) xs))"
    using findByIndexRange_resolved[OF conn, of opts] scan off lim
    by (simp add: cursor_loop_End)
  moreover have "int (length (take (nat l) (drop (nat off) xs))) =
          max 0 (min l (int (length xs) - off))"
    using off by auto
  ultimately show ?thesis by simp
qed

theorem findByIndexRange_returns_slice_witness:
  "(0::int) \<le> 1
   \<and> findByIndexRange (Inr (users_db (scan [25, 30, 30, 40] End))) ''users'' ''by_age''
        (Some \<lparr>query = None, direction = None, limit = Some (Num 2), offset = Some (Num 1)\<rparr>)
      = Inr [30, 30]
   \<and> int (length [30, 30 :: nat]) = max 0 (min 2 (int (length [25, 30, 30, 40 :: nat]) - 1))"
  using findByIndexRange_returns_slice[of
      "Inr (users_db (scan [25, 30, 30, 40] End))"
      "users_db (scan [25, 30, 30, 40] End)" "''users''"
      "\<lparr>records = [1 \<mapsto> 30], indexes = [''by_age'' \<mapsto> (\<lambda>q d. scan [25, 30, 30, 40] End)]\<rparr>"
      "''by_age''" "\<lambda>q d. scan [25, 30, 30, 40] End"
      "\<lparr>query = None, direction = None, limit = Some (Num 2), offset = Some (Num 1)\<rparr>"
      "[25, 30, 30, 40]" 1 2]
  by (simp add: users_db_def)

text \<open>With the options left out the whole scan is returned.\<close>

lemma findByIndexRange_defaults:
  assumes conn: "conn = Inr dbase" "dbase storeName = Some store"
              "indexes store indexName = Some ix"
      and scan: "ix None Next = scan xs End"
  shows "findByIndexRange conn storeName indexName None = Inr xs"
    and "findByIndexRange conn storeName indexName
           (Some \<lparr>query = None, direction = None, limit = None, offset = None\<rparr>) = Inr xs"
  using conn scan
  by (simp_all add: findByIndexRange_def getTransaction_def index_def openCursor_def Let_def
        cursor_loop_End)

text \<open>
  Claim C6.  When the scan fails after the records \<open>xs\<close> and the handlers get that far,
  that is, when the page \<open>[off, off + l)\<close> does not end before the failing position,
  \<open>findByIndexRange\<close> rejects with the cursor's error; the records collected until then
  are not returned.
\<close>

theorem findByIndexRange_cursor_error_rejects:
  assumes conn: "conn = Inr dbase" "dbase storeName = Some store"
              "indexes store indexName = Some ix"
      and scan: "ix (query opts) (case direction opts of None \<Rightarrow> Next | Some d \<Rightarrow> d)
                   = scan xs (Failure e)"
      and off: "offset opts = Some (Num off)" "0 \<le> off"
      and lim: "limit opts = Some (Num l)" "0 \<le> l"
      and reached: "int (length xs) \<le> off + l"
  shows "findByIndexRange conn storeName indexName (Some opts) = Inl (RequestFailed e)"
proof -
  have "take (nat l) (drop (nat off) xs) = drop (nat off) xs"
    using off lim reached by simp
  then show ?thesis
    using findByIndexRange_resolved[OF conn, of opts] scan off lim
    by (simp add: cursor_loop_Failure)
qed

theorem findByIndexRange_cursor_error_rejects_witness:
  "int (length [25, 30 :: nat]) \<le> 0 + 2
   \<and> findByIndexRange (Inr (users_db (scan [25, 30] (Failure ''lost'')))) ''users'' ''by_age''
       (Some \<lparr>query = None, direction = None, limit = Some (Num 2), offset = Some (Num 0)\<rparr>)
     = Inl (RequestFailed ''lost'')"
  using findByIndexRange_cursor_error_rejects[of
      "Inr (users_db (scan [25, 30] (Failure ''lost'')))"
      "users_db (scan [25, 30] (Failure ''lost''))" "''users''"
      "\<lparr>records = [1 \<mapsto> 30], indexes = [''by_age'' \<mapsto> (\<lambda>q d. scan [25, 30] (Failure ''lost''))]\<rparr>"
      "''by_age''" "\<lambda>q d. scan [25, 30] (Failure ''lost'')"
      "\<lparr>query = None, direction = None, limit = Some (Num 2), offset = Some (Num 0)\<rparr>"
      "[25, 30]" "''lost''" 0 2]
  by (simp add: users_db_def)

text \<open>
  The same holds with the default limit, under which every scan is read to its end.  When
  the page ends before the failing position the handlers stop there and never ask the
  engine for the failing step.
\<close>

lemma findByIndexRange_default_limit_cursor_error:
  assumes conn: "conn = Inr dbase" "dbase storeName = Some store"
              "indexes store indexName = Some ix"
      and scan: "ix (query opts) (case direction opts of None \<Rightarrow> Next | Some d \<Rightarrow> d)
                   = scan xs (Failure e)"
      and lim: "limit opts = None \<or> limit opts = Some Infinity"
  shows "findByIndexRange conn storeName indexName (Some opts) = Inl (RequestFailed e)"
  using findByIndexRange_resolved[OF conn, of opts] scan lim
  by (auto simp add: cursor_loop_Failure)

lemma findByIndexRange_error_not_reached:
  assumes conn: "conn = Inr dbase" "dbase storeName = Some store"
              "indexes store indexName = Some ix"
      and scan: "ix (query opts) (case direction opts of None \<Rightarrow> Next | Some d \<Rightarrow> d)
                   = scan xs (Failure e)"
      and off: "offset opts = Some (Num off)" "0 \<le> off"
      and lim: "limit opts = Some (Num l)" "0 \<le> l"
      and reached: "off + l < int (length xs)"
  shows "findByIndexRange conn storeName indexName (Some opts) = Inr (take (nat l) (drop (nat off) xs))"
proof -
  have "length (take (nat l) (drop (nat off) xs)) \<noteq> length (drop (nat off) xs)"
    using off lim reached by simp
  then have "take (nat l) (drop (nat off) xs) \<noteq> drop (nat off) xs" by metis
  then show ?thesis
    using findByIndexRange_resolved[OF conn, of opts] scan off lim
    by (simp add: cursor_loop_Failure)
qed

text \<open>
  Claim C9.  The two implementations do not agree at \<open>limit = 0\<close>: on an index with the
  records 25 and 30, \<open>src/core.ts\<close> resolves with no record and the entry-point class
  with both, because \<open>options.limit && count >= options.limit\<close> is false for a limit of 0.
\<close>

theorem variants_differ_at_limit_zero:
  "findByIndexRange (Inr (users_db (scan [25, 30] End))) ''users'' ''by_age''
       (Some \<lparr>query = None, direction = None, limit = Some (Num 0), offset = None\<rparr>)
     = Inr []
   \<and> entry_findByIndexRange (Inr (users_db (scan [25, 30] End))) ''users'' ''by_age''
       (Some \<lparr>query = None, direction = None, limit = Some (Num 0), offset = None\<rparr>)
     = Inr [25, 30]"
  by (simp add: findByIndexRange_def entry_findByIndexRange_def getTransaction_def index_def
        openCursor_def users_db_def Let_def)

text \<open>For every other limit, and every offset, the two agree.\<close>

lemma variants_agree_loop:
  assumes "lim \<noteq> Some (Num 0)" "0 \<le> advanced"
  shows "entry_cursor_loop lim off results count advanced c =
         cursor_loop (case lim of None \<Rightarrow> Infinity | Some l \<Rightarrow> l)
           (case off of None \<Rightarrow> Num 0 | Some n \<Rightarrow> n) results count advanced c"
  using assms
proof (induction c arbitrary: results count advanced)
  case (Entry v rest)
  have skip: "(truthy off \<and> lt_opt advanced off) =
      lt_number advanced (case off of None \<Rightarrow> Num 0 | Some n \<Rightarrow> n)"
    using Entry.prems(2) by (cases "off" rule: truthy.cases) auto
  have stop: "(truthy lim \<and> ge_opt count lim) =
      (\<not> lt_number count (case lim of None \<Rightarrow> Infinity | Some l \<Rightarrow> l))"
    using Entry.prems(1) by (cases "lim" rule: truthy.cases) auto
  show ?case
    using Entry.IH[of "advanced + 1" results count] Entry.IH[of advanced "results @ [v]" "count + 1"]
      Entry.prems
    by (simp add: skip stop del: truthy.simps lt_opt.simps ge_opt.simps)
qed simp_all

lemma variants_agree_unless_limit_zero:
  assumes "limit opts \<noteq> Some (Num 0)"
  shows "entry_findByIndexRange conn storeName indexName (Some opts) =
         findByIndexRange conn storeName indexName (Some opts)"
  using assms
  by (simp add: entry_findByIndexRange_def findByIndexRange_def Let_def openCursor_def
        variants_agree_loop split: sum.splits option.splits)

section \<open>Properties of the promise adapters\<close>

lemma promisifyRequest_settled:
  "p \<noteq> Pending \<Longrightarrow> promisifyRequest ev p = p"
  by (cases ev; cases p) simp_all

lemma promisifyTransaction_settled:
  "p \<noteq> Pending \<Longrightarrow> promisifyTransaction ev p = p"
  by (cases "(ev, p)" rule: promisifyTransaction.cases; cases p) simp_all

lemma promisifyRequest_Fulfilled:
  "promisifyRequest ev p = Fulfilled k \<Longrightarrow> p = Fulfilled k \<or> ev = RequestSuccess k"
  by (cases ev; cases p) simp_all

lemma promisifyTransaction_Fulfilled:
  "promisifyTransaction ev p = Fulfilled u \<Longrightarrow> p = Fulfilled u \<or> ev = TransactionComplete"
  by (cases "(ev, p)" rule: promisifyTransaction.cases; cases p) simp_all

lemma promisifyTransaction_fails:
  "ev = TransactionAbort e \<or> ev = TransactionError e \<Longrightarrow>
   p = Pending \<Longrightarrow> \<exists>err. promisifyTransaction ev p = Rejected err"
  by (cases e) auto

lemma promise_all_inv:
  assumes "write_inv (req, txn, both)"
      and "req' = req \<or> req = Pending" "txn' = txn \<or> txn = Pending"
  shows "write_inv (req', txn', promise_all req' txn' both)"
  using assms unfolding write_inv_def
  by (cases req'; cases txn'; cases both) auto

lemma write_step_inv: "write_inv s \<Longrightarrow> write_inv (write_step s ev)"
proof -
  assume inv: "write_inv s"
  obtain req txn both where s: "s = (req, txn, both)" by (cases s) auto
  have r: "promisifyRequest ev req = req \<or> req = Pending"
    using promisifyRequest_settled[of req ev] by blast
  have t: "promisifyTransaction ev txn = txn \<or> txn = Pending"
    using promisifyTransaction_settled[of txn ev] by blast
  show ?thesis
    using promise_all_inv[OF inv[unfolded s] r t] by (simp add: s Let_def)
qed

lemma write_inv_foldl: "write_inv s \<Longrightarrow> write_inv (foldl write_step s evs)"
  by (induction evs arbitrary: s) (simp_all add: write_step_inv)

lemma foldl_write_step_parts:
  "foldl write_step (req, txn, both) evs =
     (foldl (\<lambda>p ev. promisifyRequest ev p) req evs,
      foldl (\<lambda>p ev. promisifyTransaction ev p) txn evs,
      snd (snd (foldl write_step (req, txn, both) evs)))"
  by (induction evs arbitrary: req txn both) (simp_all add: Let_def)

lemma request_fulfilled_only_by_success:
  "foldl (\<lambda>p ev. promisifyRequest ev p) Pending evs = Fulfilled k \<Longrightarrow> RequestSuccess k \<in> set evs"
proof (induction evs rule: rev_induct)
  case Nil
  then show ?case by simp
next
  case (snoc ev evs)
  then show ?case using promisifyRequest_Fulfilled[of ev _ k] by auto
qed

lemma transaction_fulfilled_only_by_complete:
  "foldl (\<lambda>p ev. promisifyTransaction ev p) Pending evs = Fulfilled u \<Longrightarrow>
     TransactionComplete \<in> set evs"
proof (induction evs rule: rev_induct)
  case Nil
  then show ?case by simp
next
  case (snoc ev evs)
  then show ?case using promisifyTransaction_Fulfilled[of ev _ u] by auto
qed

lemma transaction_settled_foldl:
  "p \<noteq> Pending \<Longrightarrow> foldl (\<lambda>p ev. promisifyTransaction ev p) p evs = p"
  by (induction evs) (simp_all add: promisifyTransaction_settled)

lemma transaction_pending_without_complete:
  "TransactionComplete \<notin> set evs \<Longrightarrow>
   foldl (\<lambda>p ev. promisifyTransaction ev p) Pending evs \<noteq> Fulfilled u"
  using transaction_fulfilled_only_by_complete by blast

lemma transaction_rejected_after_failure:
  assumes "TransactionComplete \<notin> set pre" "ev = TransactionAbort e \<or> ev = TransactionError e"
  shows "\<exists>err. foldl (\<lambda>p ev. promisifyTransaction ev p) Pending (pre @ ev # post) = Rejected err"
proof -
  let ?p = "foldl (\<lambda>p ev. promisifyTransaction ev p) Pending pre"
  have "\<exists>err. promisifyTransaction ev ?p = Rejected err"
  proof (cases ?p)
    case Pending
    then show ?thesis using promisifyTransaction_fails[OF assms(2)] by simp
  next
    case (Fulfilled u)
    then show ?thesis using transaction_pending_without_complete[OF assms(1)] by simp
  next
    case (Rejected err)
    then show ?thesis by (simp add: promisifyTransaction_settled)
  qed
  then obtain err where "promisifyTransaction ev ?p = Rejected err" ..
  then show ?thesis by (simp add: transaction_settled_foldl)
qed

lemma await_both_Fulfilled:
  assumes "await_both evs = Fulfilled (k, u)"
  shows "RequestSuccess k \<in> set evs \<and> TransactionComplete \<in> set evs"
proof -
  let ?s = "foldl write_step (Pending, Pending, Pending) evs"
  have inv: "write_inv ?s" by (rule write_inv_foldl) (simp add: write_inv_def)
  have parts: "?s = (foldl (\<lambda>p ev. promisifyRequest ev p) Pending evs,
      foldl (\<lambda>p ev. promisifyTransaction ev p) Pending evs, await_both evs)"
    using foldl_write_step_parts[of Pending Pending Pending evs] by (simp add: await_both_def)
  from inv assms have "foldl (\<lambda>p ev. promisifyRequest ev p) Pending evs = Fulfilled k"
    and "foldl (\<lambda>p ev. promisifyTransaction ev p) Pending evs = Fulfilled u"
    unfolding parts write_inv_def by simp_all
  then show ?thesis
    by (simp add: request_fulfilled_only_by_success transaction_fulfilled_only_by_complete)
qed

lemma await_both_Rejected:
  assumes "TransactionComplete \<notin> set pre" "ev = TransactionAbort e \<or> ev = TransactionError e"
  shows "\<exists>err. await_both (pre @ ev # post) = Rejected err"
proof -
  let ?evs = "pre @ ev # post"
  let ?s = "foldl write_step (Pending, Pending, Pending) ?evs"
  have inv: "write_inv ?s" by (rule write_inv_foldl) (simp add: write_inv_def)
  have parts: "?s = (foldl (\<lambda>p ev. promisifyRequest ev p) Pending ?evs,
      foldl (\<lambda>p ev. promisifyTransaction ev p) Pending ?evs, await_both ?evs)"
    using foldl_write_step_parts[of Pending Pending Pending ?evs] by (simp add: await_both_def)
  from transaction_rejected_after_failure[OF assms]
  obtain err where "foldl (\<lambda>p ev. promisifyTransaction ev p) Pending ?evs = Rejected err" by blast
  with inv show ?thesis unfolding parts write_inv_def by simp
qed

lemma then_promise_Fulfilled:
  "then_promise f p = Fulfilled y \<Longrightarrow> \<exists>x. p = Fulfilled x \<and> y = f x"
  by (cases p) auto

text \<open>
  Claim C4.  The promise of \<open>add\<close>, \<open>put\<close>, \<open>delete\<close> and \<open>clear\<close> is fulfilled
  only if, among the events seen so far, the request has succeeded and the transaction has
  completed.  If the transaction's abort or error event arrives with no completion before
  it, the promise is rejected, whatever the request has reported.
\<close>

theorem write_operations_wait_for_commit:
  fixes conn :: "'e + ('k, 'q, 'v, 'e) database"
    and evs pre post :: "('k, 'e) idb_event list"
    and uevs upre upost :: "(unit, 'e) idb_event list"
  shows "(add conn storeName evs = Fulfilled k \<longrightarrow>
            RequestSuccess k \<in> set evs \<and> TransactionComplete \<in> set evs)
       \<and> (put conn storeName evs = Fulfilled k \<longrightarrow>
            RequestSuccess k \<in> set evs \<and> TransactionComplete \<in> set evs)
       \<and> (delete conn storeName uevs = Fulfilled () \<longrightarrow>
            RequestSuccess () \<in> set uevs \<and> TransactionComplete \<in> set uevs)
       \<and> (clear conn storeName uevs = Fulfilled () \<longrightarrow>
            RequestSuccess () \<in> set uevs \<and> TransactionComplete \<in> set uevs)
       \<and> (TransactionComplete \<notin> set pre \<and> (ev = TransactionAbort err \<or> ev = TransactionError err) \<longrightarrow>
            (\<exists>x. add conn storeName (pre @ ev # post) = Rejected x)
          \<and> (\<exists>x. put conn storeName (pre @ ev # post) = Rejected x))
       \<and> (TransactionComplete \<notin> set upre \<and> (uev = TransactionAbort err \<or> uev = TransactionError err) \<longrightarrow>
            (\<exists>x. delete conn storeName (upre @ uev # upost) = Rejected x)
          \<and> (\<exists>x. clear conn storeName (upre @ uev # upost) = Rejected x))"
proof -
  have key: "RequestSuccess k \<in> set evs \<and> TransactionComplete \<in> set evs"
    if "then_promise fst (await_both evs) = Fulfilled k"
  proof -
    from then_promise_Fulfilled[OF that] obtain x where x: "await_both evs = Fulfilled x" "k = fst x"
      by blast
    then have "await_both evs = Fulfilled (k, snd x)" by (cases x) simp
    from await_both_Fulfilled[OF this] show ?thesis .
  qed
  have unit: "RequestSuccess () \<in> set uevs \<and> TransactionComplete \<in> set uevs"
    if "then_promise (\<lambda>_. ()) (await_both uevs) = Fulfilled ()"
  proof -
    from then_promise_Fulfilled[OF that] obtain x where x: "await_both uevs = Fulfilled x"
      by blast
    then have "await_both uevs = Fulfilled ((), ())" by (cases x) simp
    from await_both_Fulfilled[OF this] show ?thesis .
  qed
  have a: "add conn storeName evs = Fulfilled k \<longrightarrow>
            RequestSuccess k \<in> set evs \<and> TransactionComplete \<in> set evs"
    using key by (auto simp: add_def split: sum.splits)
  have p: "put conn storeName evs = Fulfilled k \<longrightarrow>
            RequestSuccess k \<in> set evs \<and> TransactionComplete \<in> set evs"
    using key by (auto simp: put_def split: sum.splits)
  have d: "delete conn storeName uevs = Fulfilled () \<longrightarrow>
            RequestSuccess () \<in> set uevs \<and> TransactionComplete \<in> set uevs"
    using unit by (auto simp: delete_def split: sum.splits)
  have c: "clear conn storeName uevs = Fulfilled () \<longrightarrow>
            RequestSuccess () \<in> set uevs \<and> TransactionComplete \<in> set uevs"
    using unit by (auto simp: clear_def split: sum.splits)
  have f1: "TransactionComplete \<notin> set pre \<and> (ev = TransactionAbort err \<or> ev = TransactionError err) \<longrightarrow>
            (\<exists>x. add conn storeName (pre @ ev # post) = Rejected x)
          \<and> (\<exists>x. put conn storeName (pre @ ev # post) = Rejected x)"
  proof
    assume h: "TransactionComplete \<notin> set pre \<and> (ev = TransactionAbort err \<or> ev = TransactionError err)"
    then obtain x where "await_both (pre @ ev # post) = Rejected x"
      using await_both_Rejected[of pre ev err post] by blast
    then show "(\<exists>x. add conn storeName (pre @ ev # post) = Rejected x)
          \<and> (\<exists>x. put conn storeName (pre @ ev # post) = Rejected x)"
      by (simp add: add_def put_def split: sum.splits)
  qed
  have f2: "TransactionComplete \<notin> set upre \<and> (uev = TransactionAbort err \<or> uev = TransactionError err) \<longrightarrow>
            (\<exists>x. delete conn storeName (upre @ uev # upost) = Rejected x)
          \<and> (\<exists>x. clear conn storeName (upre @ uev # upost) = Rejected x)"
  proof
    assume h: "TransactionComplete \<notin> set upre \<and> (uev = TransactionAbort err \<or> uev = TransactionError err)"
    then obtain x where "await_both (upre @ uev # upost) = Rejected x"
      using await_both_Rejected[of upre uev err upost] by blast
    then show "(\<exists>x. delete conn storeName (upre @ uev # upost) = Rejected x)
          \<and> (\<exists>x. clear conn storeName (upre @ uev # upost) = Rejected x)"
      by (simp add: delete_def clear_def split: sum.splits)
  qed
  from a p d c f1 f2 show ?thesis by blast
qed

theorem write_operations_wait_for_commit_witness:
  "add (Inr (users_db End)) ''users'' [RequestSuccess 7, TransactionComplete] = Fulfilled 7
   \<and> RequestSuccess 7 \<in> set [RequestSuccess (7::nat), TransactionComplete :: (nat, string) idb_event]
   \<and> TransactionComplete \<notin> set [RequestSuccess (7::nat) :: (nat, string) idb_event]
   \<and> add (Inr (users_db End)) ''users'' ([RequestSuccess 7] @ TransactionAbort None # [])
       = Rejected TransactionAborted
   \<and> delete (Inr (users_db End)) ''users'' [RequestSuccess (), TransactionComplete] = Fulfilled ()
   \<and> (\<exists>x. clear (Inr (users_db End)) ''users'' ([RequestSuccess ()] @ TransactionAbort None # [])
       = Rejected x)"
proof -
  have 1: "add (Inr (users_db End)) ''users'' [RequestSuccess 7, TransactionComplete] = Fulfilled 7"
    by (simp add: add_def getTransaction_def users_db_def await_both_def Let_def)
  have 2: "add (Inr (users_db End)) ''users'' ([RequestSuccess 7] @ TransactionAbort None # [])
       = Rejected TransactionAborted"
    by (simp add: add_def getTransaction_def users_db_def await_both_def Let_def)
  have 3: "delete (Inr (users_db End)) ''users'' [RequestSuccess (), TransactionComplete] = Fulfilled ()"
    by (simp add: delete_def getTransaction_def users_db_def await_both_def Let_def)
  have 4: "TransactionComplete \<notin> set [RequestSuccess () :: (unit, string) idb_event]" by simp
  from write_operations_wait_for_commit[of "Inr (users_db End)" "''users''"
      "[RequestSuccess 7, TransactionComplete]" 7 "[RequestSuccess (), TransactionComplete]"
      "[RequestSuccess 7]" "TransactionAbort None" None "[]"
      "[RequestSuccess ()]" "TransactionAbort None" "[]"] 1 2 3 4
  show ?thesis by simp
qed

text \<open>
  Claim C10.  \<open>get\<close> with a key under which the store has no record resolves with
  \<open>undefined\<close>.
\<close>

theorem get_missing_key_resolves_undefined:
  assumes "conn = Inr dbase" "dbase storeName = Some store" "records store key = None"
  shows "get conn storeName key = Fulfilled None"
  using assms by (simp add: get_def getTransaction_def store_get_def)

theorem get_missing_key_resolves_undefined_witness:
  "records \<lparr>records = [1 \<mapsto> 30], indexes = [''by_age'' \<mapsto> (\<lambda>q d. End)]\<rparr> (2::nat) = None
   \<and> get (Inr (users_db End)) ''users'' 2 = Fulfilled None"
  using get_missing_key_resolves_undefined[of "Inr (users_db End)" "users_db End" "''users''"
      "\<lparr>records = [1 \<mapsto> 30], indexes = [''by_age'' \<mapsto> (\<lambda>q d. End)]\<rparr>" 2]
  by (simp add: users_db_def)

section \<open>Properties of the connection manager\<close>

text \<open>
  Claim C7, as stated, fails.  A second \<open>getDB\<close> made while the first open is still in
  flight issues a second open request: the manager keeps no record of an open in progress.
\<close>

theorem concurrent_getDB_counterexample:
  "db (getDB_call new_manager) = None
   \<and> in_flight (getDB_call new_manager) = 1
   \<and> opens_issued (getDB_call new_manager) = 1
   \<and> opens_issued (getDB_call (getDB_call new_manager)) = 2
   \<and> in_flight (getDB_call (getDB_call new_manager)) = 2"
  by (simp add: getDB_call_def openDB_call_def new_manager_def isConnectionAlive_def)

text \<open>
  Claim C7, amended.  \<open>getDB\<close> issues one open request whenever the manager holds no
  handle at the time of the call, also while earlier opens are in flight; with a handle
  present it issues none and changes nothing.
\<close>

theorem getDB_opens_iff_no_handle:
  "(db m = None \<longrightarrow>
      opens_issued (getDB_call m) = opens_issued m + 1
      \<and> in_flight (getDB_call m) = in_flight m + 1)
   \<and> (db m \<noteq> None \<longrightarrow> getDB_call m = m)"
  by (auto simp add: getDB_call_def openDB_call_def isConnectionAlive_def split: option.splits)

theorem getDB_opens_iff_no_handle_witness:
  "db new_manager = None
   \<and> opens_issued (getDB_call new_manager) = opens_issued new_manager + 1
   \<and> db (open_succeeds (getDB_call new_manager)) \<noteq> None
   \<and> getDB_call (open_succeeds (getDB_call new_manager)) = open_succeeds (getDB_call new_manager)"
proof -
  have a: "db new_manager = None" by (simp add: new_manager_def)
  have b: "db (open_succeeds (getDB_call new_manager)) \<noteq> None"
    by (simp add: open_succeeds_def getDB_call_def openDB_call_def new_manager_def Let_def)
  show ?thesis
    using a b getDB_opens_iff_no_handle[of new_manager]
      getDB_opens_iff_no_handle[of "open_succeeds (getDB_call new_manager)"]
    by blast
qed

text \<open>
  Claim C8.  \<open>close\<close> twice is \<open>close\<close> once; without a handle it changes nothing;
  after it the handle is gone, so the next \<open>getDB\<close> issues a new open request.
\<close>

theorem close_idempotent:
  "close (close m) = close m
   \<and> (db m = None \<longrightarrow> close m = m)
   \<and> db (close m) = None
   \<and> opens_issued (getDB_call (close m)) = opens_issued m + 1"
  by (cases "db m") (simp_all add: close_def getDB_call_def openDB_call_def)

theorem close_idempotent_witness:
  "db new_manager = None \<and> close new_manager = new_manager
   \<and> db (open_succeeds (getDB_call new_manager)) = Some 0
   \<and> close (close (open_succeeds (getDB_call new_manager))) = close (open_succeeds (getDB_call new_manager))"
proof -
  have a: "db new_manager = None" by (simp add: new_manager_def)
  have b: "db (open_succeeds (getDB_call new_manager)) = Some 0"
    by (simp add: open_succeeds_def getDB_call_def openDB_call_def new_manager_def Let_def)
  show ?thesis
    using a b close_idempotent[of new_manager]
      close_idempotent[of "open_succeeds (getDB_call new_manager)"]
    by blast
qed

section \<open>Properties of the schema reconciler\<close>

lemma names_dom: "set (objectStoreNames d) = dom (persisted_store d)"
  by (simp add: objectStoreNames_def persisted_store_def dom_map_of_conv_image_fst)

lemma indexNames_dom: "set (indexNames st) = dom (map_of (os_indexes st))"
  by (simp add: indexNames_def dom_map_of_conv_image_fst)

lemma persisted_index_alt:
  "persisted_index d sn i = (case persisted_store d sn of None \<Rightarrow> None | Some st \<Rightarrow> map_of (os_indexes st) i)"
  by (simp add: persisted_index_def persisted_store_def)

lemma deleteObjectStore_store:
  "deleteObjectStore n d = Inr d' \<Longrightarrow> persisted_store d' = (persisted_store d)(n := None)"
  by (auto simp: deleteObjectStore_def persisted_store_def AList.delete_conv' split: if_splits)

lemma createObjectStore_store:
  "createObjectStore n kp ai d = Inr d' \<Longrightarrow>
     persisted_store d n = None \<and>
     persisted_store d' = (persisted_store d)(n \<mapsto>
        \<lparr>os_keyPath = kp, os_autoIncrement = is_true ai, os_indexes = []\<rparr>)"
  by (auto simp: createObjectStore_def persisted_store_def AList.update_conv'
        objectStoreNames_def map_of_eq_None_iff split: if_splits)

lemma createIndex_store:
  "createIndex sn n kp opts d = Inr d' \<Longrightarrow>
     \<exists>st. persisted_store d sn = Some st \<and> map_of (os_indexes st) n = None \<and>
       persisted_store d' = (persisted_store d)(sn \<mapsto>
         st\<lparr>os_indexes := AList.update n (new_index kp opts) (os_indexes st)\<rparr>)"
  by (auto simp: createIndex_def persisted_store_def AList.update_conv'
        indexNames_def map_of_eq_None_iff split: if_splits option.splits)

lemma deleteIndex_store:
  "deleteIndex sn n d = Inr d' \<Longrightarrow>
     \<exists>st. persisted_store d sn = Some st \<and>
       persisted_store d' = (persisted_store d)(sn \<mapsto>
         st\<lparr>os_indexes := AList.delete n (os_indexes st)\<rparr>)"
  by (auto simp: deleteIndex_def persisted_store_def AList.update_conv'
        split: if_splits option.splits)

lemma deleteObjectStore_Inr:
  assumes "deleteObjectStore n d = Inr d'"
  shows "dom (persisted_store d') = dom (persisted_store d) - {n}"
    and "persisted_index d' s i = (if s = n then None else persisted_index d s i)"
  using deleteObjectStore_store[OF assms] by (auto simp: persisted_index_alt)

lemma createObjectStore_Inr:
  assumes "createObjectStore n kp ai d = Inr d'"
  shows "dom (persisted_store d') = insert n (dom (persisted_store d))"
    and "persisted_index d' s i = persisted_index d s i"
    and "persisted_index d' n i = None"
  using createObjectStore_store[OF assms] by (auto simp: persisted_index_alt)

lemma objectStore_Inr:
  assumes "objectStore n d = Inr st"
  shows "n \<in> dom (persisted_store d)"
    and "map_of (os_indexes st) i = persisted_index d n i"
  using assms
  by (auto simp: objectStore_def persisted_store_def persisted_index_def split: option.splits)

lemma createIndex_Inr:
  assumes "createIndex sn n kp opts d = Inr d'"
  shows "dom (persisted_store d') = dom (persisted_store d)"
    and "persisted_index d sn n = None"
    and "persisted_index d' s i =
           (if s = sn \<and> i = n then Some (new_index kp opts) else persisted_index d s i)"
  using createIndex_store[OF assms]
  by (auto simp: persisted_index_alt AList.update_conv' split: if_splits)

lemma deleteIndex_Inr:
  assumes "deleteIndex sn n d = Inr d'"
  shows "dom (persisted_store d') = dom (persisted_store d)"
    and "persisted_index d' s i = (if s = sn \<and> i = n then None else persisted_index d s i)"
  using deleteIndex_store[OF assms]
  by (auto simp: persisted_index_alt AList.delete_conv' split: if_splits)

lemma delete_stores_Inr:
  "delete_stores existing desired d = Inr d' \<Longrightarrow>
     dom (persisted_store d') = dom (persisted_store d) - (set existing - set desired)
     \<and> (\<forall>s i. persisted_index d' s i =
           (if s \<in> set existing \<and> s \<notin> set desired then None else persisted_index d s i))"
proof (induction existing arbitrary: d)
  case Nil
  then show ?case by simp
next
  case (Cons n rest)
  show ?case
  proof (cases "n \<in> set desired")
    case True
    with Cons.prems have "delete_stores rest desired d = Inr d'" by simp
    from Cons.IH[OF this] True show ?thesis by auto
  next
    case False
    with Cons.prems obtain d1 where d1: "deleteObjectStore n d = Inr d1"
      and rest: "delete_stores rest desired d1 = Inr d'"
      by (auto split: sum.splits)
    from Cons.IH[OF rest] deleteObjectStore_Inr[OF d1] False show ?thesis by auto
  qed
qed

lemma delete_indexes_Inr:
  "delete_indexes existing desired sn d = Inr d' \<Longrightarrow>
     dom (persisted_store d') = dom (persisted_store d)
     \<and> (\<forall>s i. persisted_index d' s i =
           (if s = sn \<and> i \<in> set existing \<and> i \<notin> set desired then None
            else persisted_index d s i))"
proof (induction existing arbitrary: d)
  case Nil
  then show ?case by simp
next
  case (Cons n rest)
  show ?case
  proof (cases "n \<in> set desired")
    case True
    with Cons.prems have "delete_indexes rest desired sn d = Inr d'" by simp
    from Cons.IH[OF this] True show ?thesis by auto
  next
    case False
    with Cons.prems obtain d1 where d1: "deleteIndex sn n d = Inr d1"
      and rest: "delete_indexes rest desired sn d1 = Inr d'"
      by (auto split: sum.splits)
    from Cons.IH[OF rest] deleteIndex_Inr[OF d1] False show ?thesis by auto
  qed
qed

lemma create_indexes_Inr:
  "create_indexes idxs existing sn d = Inr d' \<Longrightarrow>
     dom (persisted_store d') = dom (persisted_store d)
     \<and> (\<forall>s i. persisted_index d s i \<noteq> None \<longrightarrow> persisted_index d' s i = persisted_index d s i)
     \<and> (\<forall>s i. persisted_index d' s i \<noteq> None \<longrightarrow>
           persisted_index d s i \<noteq> None
           \<or> (s = sn \<and> i \<in> index_name ` set idxs \<and> i \<notin> set existing))
     \<and> (\<forall>i \<in> index_name ` set idxs. i \<notin> set existing \<longrightarrow> persisted_index d' sn i \<noteq> None)"
proof (induction idxs arbitrary: d)
  case Nil
  then show ?case by simp
next
  case (Cons x rest)
  show ?case
  proof (cases "index_name x \<in> set existing")
    case True
    with Cons.prems have "create_indexes rest existing sn d = Inr d'" by simp
    note ih = Cons.IH[OF this]
    have only: "\<forall>s i. persisted_index d' s i \<noteq> None \<longrightarrow>
           persisted_index d s i \<noteq> None
           \<or> (s = sn \<and> i \<in> index_name ` set (x # rest) \<and> i \<notin> set existing)"
    proof (intro allI impI)
      fix s i assume "persisted_index d' s i \<noteq> None"
      with ih have "persisted_index d s i \<noteq> None
           \<or> (s = sn \<and> i \<in> index_name ` set rest \<and> i \<notin> set existing)" by blast
      then show "persisted_index d s i \<noteq> None
           \<or> (s = sn \<and> i \<in> index_name ` set (x # rest) \<and> i \<notin> set existing)" by auto
    qed
    have made: "\<forall>i \<in> index_name ` set (x # rest). i \<notin> set existing \<longrightarrow>
           persisted_index d' sn i \<noteq> None"
      using ih True by auto
    from ih only made show ?thesis by blast
  next
    case False
    with Cons.prems obtain d1
      where d1: "createIndex sn (index_name x) (index_keyPath x) (index_options x) d = Inr d1"
      and rest: "create_indexes rest existing sn d1 = Inr d'"
      by (auto split: sum.splits)
    note ih = Cons.IH[OF rest]
    note ci = createIndex_Inr[OF d1]
    have dom: "dom (persisted_store d') = dom (persisted_store d)"
      using ih ci(1) by simp
    have keep: "\<forall>s i. persisted_index d s i \<noteq> None \<longrightarrow> persisted_index d' s i = persisted_index d s i"
    proof (intro allI impI)
      fix s i assume a: "persisted_index d s i \<noteq> None"
      then have "\<not> (s = sn \<and> i = index_name x)" using ci(2) by auto
      then have "persisted_index d1 s i = persisted_index d s i" using ci(3)[of s i] by auto
      with a ih show "persisted_index d' s i = persisted_index d s i" by auto
    qed
    have only: "\<forall>s i. persisted_index d' s i \<noteq> None \<longrightarrow>
           persisted_index d s i \<noteq> None
           \<or> (s = sn \<and> i \<in> index_name ` set (x # rest) \<and> i \<notin> set existing)"
    proof (intro allI impI)
      fix s i assume a: "persisted_index d' s i \<noteq> None"
      with ih have "persisted_index d1 s i \<noteq> None
           \<or> (s = sn \<and> i \<in> index_name ` set rest \<and> i \<notin> set existing)" by blast
      then show "persisted_index d s i \<noteq> None
           \<or> (s = sn \<and> i \<in> index_name ` set (x # rest) \<and> i \<notin> set existing)"
        using ci(3)[of s i] False by (auto split: if_splits)
    qed
    have made: "\<forall>i \<in> index_name ` set (x # rest). i \<notin> set existing \<longrightarrow> persisted_index d' sn i \<noteq> None"
    proof (intro ballI impI)
      fix i assume a: "i \<in> index_name ` set (x # rest)" "i \<notin> set existing"
      show "persisted_index d' sn i \<noteq> None"
      proof (cases "i = index_name x")
        case True
        then have "persisted_index d1 sn i \<noteq> None" using ci(3)[of sn i] by simp
        with ih show ?thesis by metis
      next
        case False
        with a have "i \<in> index_name ` set rest" by auto
        with a ih show ?thesis by blast
      qed
    qed
    from dom keep only made show ?thesis by blast
  qed
qed


lemma delete_stores_rules:
  assumes "delete_stores existing desired d = Inr d'"
  shows "dom (persisted_store d') = dom (persisted_store d) - (set existing - set desired)"
    and "persisted_index d' s i =
           (if s \<in> set existing \<and> s \<notin> set desired then None else persisted_index d s i)"
  using delete_stores_Inr[OF assms] by simp_all

lemma delete_indexes_rules:
  assumes "delete_indexes existing desired sn d = Inr d'"
  shows "dom (persisted_store d') = dom (persisted_store d)"
    and "persisted_index d' s i =
           (if s = sn \<and> i \<in> set existing \<and> i \<notin> set desired then None
            else persisted_index d s i)"
  using delete_indexes_Inr[OF assms] by simp_all

lemma create_indexes_rules:
  assumes "create_indexes idxs existing sn d = Inr d'"
  shows "dom (persisted_store d') = dom (persisted_store d)"
    and "persisted_index d s i \<noteq> None \<Longrightarrow> persisted_index d' s i = persisted_index d s i"
    and "persisted_index d' s i \<noteq> None \<Longrightarrow>
           persisted_index d s i \<noteq> None
           \<or> (s = sn \<and> i \<in> index_name ` set idxs \<and> i \<notin> set existing)"
    and "i \<in> index_name ` set idxs \<Longrightarrow> i \<notin> set existing \<Longrightarrow>
           persisted_index d' sn i \<noteq> None"
proof -
  note r = create_indexes_Inr[OF assms]
  show "dom (persisted_store d') = dom (persisted_store d)" using r by (rule conjunct1)
  show "persisted_index d s i \<noteq> None \<Longrightarrow> persisted_index d' s i = persisted_index d s i"
    using r[THEN conjunct2, THEN conjunct1] by simp
  show "persisted_index d' s i \<noteq> None \<Longrightarrow>
           persisted_index d s i \<noteq> None
           \<or> (s = sn \<and> i \<in> index_name ` set idxs \<and> i \<notin> set existing)"
    using r[THEN conjunct2, THEN conjunct2, THEN conjunct1, rule_format, of s i] by simp
  show "i \<in> index_name ` set idxs \<Longrightarrow> i \<notin> set existing \<Longrightarrow>
           persisted_index d' sn i \<noteq> None"
    using r[THEN conjunct2, THEN conjunct2, THEN conjunct2, rule_format, of i] by simp
qed

lemma create_or_fetch_Inr:
  assumes "create_or_fetch existing ss d = Inr (d1, st)"
  shows "dom (persisted_store d1) = insert (store_name ss) (dom (persisted_store d))"
    and "persisted_index d1 s i = persisted_index d s i"
    and "map_of (os_indexes st) i = persisted_index d1 (store_name ss) i"
proof -
  let ?sn = "store_name ss"
  have all: "dom (persisted_store d1) = insert ?sn (dom (persisted_store d))
     \<and> persisted_index d1 s i = persisted_index d s i
     \<and> map_of (os_indexes st) i = persisted_index d1 ?sn i"
  proof (cases "?sn \<in> set existing")
    case True
    with assms have f: "objectStore ?sn d = Inr st" and e: "d1 = d"
      by (auto simp: create_or_fetch_def split: sum.splits)
    from objectStore_Inr[OF f] e show ?thesis by (simp add: insert_absorb)
  next
    case False
    with assms have c: "createObjectStore ?sn (store_keyPath ss) (store_autoIncrement ss) d = Inr d1"
      and st: "os_indexes st = []"
      by (auto simp: create_or_fetch_def split: sum.splits)
    from createObjectStore_Inr[OF c] st show ?thesis by simp
  qed
  from all show "dom (persisted_store d1) = insert ?sn (dom (persisted_store d))" by simp
  from all show "persisted_index d1 s i = persisted_index d s i" by simp
  from all show "map_of (os_indexes st) i = persisted_index d1 ?sn i" by simp
qed

lemma reconcile_store_Inr:
  assumes "reconcile_store existing ss d = Inr d'"
  shows "dom (persisted_store d') = insert (store_name ss) (dom (persisted_store d))"
    and "s \<noteq> store_name ss \<Longrightarrow> persisted_index d' s i = persisted_index d s i"
    and "store_indexes ss = None \<Longrightarrow>
           persisted_index d' (store_name ss) i = persisted_index d (store_name ss) i"
    and "store_indexes ss = Some idxs \<Longrightarrow>
           (persisted_index d' (store_name ss) i \<noteq> None) = (i \<in> index_name ` set idxs)"
    and "store_indexes ss = Some idxs \<Longrightarrow> persisted_index d (store_name ss) i \<noteq> None \<Longrightarrow>
           i \<in> index_name ` set idxs \<Longrightarrow>
           persisted_index d' (store_name ss) i = persisted_index d (store_name ss) i"
proof -
  let ?sn = "store_name ss"
  from assms obtain d1 st where cf: "create_or_fetch existing ss d = Inr (d1, st)"
    by (auto simp: reconcile_store_def split: sum.splits)
  note c = create_or_fetch_Inr[OF cf]
  have ex: "\<And>j. (j \<in> set (indexNames st)) = (persisted_index d1 ?sn j \<noteq> None)"
    using c(3) by (auto simp: indexNames_dom)
  show "store_indexes ss = None \<Longrightarrow> persisted_index d' ?sn i = persisted_index d ?sn i"
    using assms cf c(2) by (simp add: reconcile_store_def)
  have rest: "dom (persisted_store d') = insert ?sn (dom (persisted_store d))
    \<and> (s \<noteq> ?sn \<longrightarrow> persisted_index d' s i = persisted_index d s i)
    \<and> (\<forall>idxs. store_indexes ss = Some idxs \<longrightarrow>
         ((persisted_index d' ?sn i \<noteq> None) = (i \<in> index_name ` set idxs))
       \<and> (persisted_index d ?sn i \<noteq> None \<longrightarrow> i \<in> index_name ` set idxs \<longrightarrow>
             persisted_index d' ?sn i = persisted_index d ?sn i))"
  proof (cases "store_indexes ss")
    case None
    with assms cf have "d' = d1" by (simp add: reconcile_store_def)
    with c None show ?thesis by simp
  next
    case (Some idxs)
    with assms cf obtain d2
      where del: "delete_indexes (indexNames st) (map index_name idxs) ?sn d1 = Inr d2"
        and cre: "create_indexes idxs (indexNames st) ?sn d2 = Inr d'"
      by (auto simp: reconcile_store_def Let_def split: sum.splits)
    note dl = delete_indexes_rules[OF del]
    note cr = create_indexes_rules[OF cre]
    have d2: "\<And>t j. persisted_index d2 t j =
        (if t = ?sn \<and> persisted_index d ?sn j \<noteq> None \<and> j \<notin> index_name ` set idxs then None
         else persisted_index d t j)"
      by (simp add: dl(2) ex c(2))
    have keep: "\<And>t j. persisted_index d2 t j \<noteq> None \<Longrightarrow>
        persisted_index d' t j = persisted_index d2 t j"
      by (rule cr(2))
    have only: "\<And>t j. persisted_index d' t j \<noteq> None \<Longrightarrow> persisted_index d2 t j \<noteq> None
        \<or> (t = ?sn \<and> j \<in> index_name ` set idxs \<and> persisted_index d ?sn j = None)"
    proof -
      fix t j assume "persisted_index d' t j \<noteq> None"
      from cr(3)[OF this] show "persisted_index d2 t j \<noteq> None
        \<or> (t = ?sn \<and> j \<in> index_name ` set idxs \<and> persisted_index d ?sn j = None)"
        by (simp add: ex c(2))
    qed
    have made: "\<And>j. j \<in> index_name ` set idxs \<Longrightarrow> persisted_index d ?sn j = None \<Longrightarrow>
        persisted_index d' ?sn j \<noteq> None"
    proof -
      fix j assume a: "j \<in> index_name ` set idxs" "persisted_index d ?sn j = None"
      then have "j \<notin> set (indexNames st)" by (simp add: ex c(2))
      from cr(4)[OF a(1) this] show "persisted_index d' ?sn j \<noteq> None" .
    qed
    have A: "dom (persisted_store d') = insert ?sn (dom (persisted_store d))"
      by (simp add: cr(1) dl(1) c(1))
    have B: "s \<noteq> ?sn \<longrightarrow> persisted_index d' s i = persisted_index d s i"
    proof
      assume ne: "s \<noteq> ?sn"
      show "persisted_index d' s i = persisted_index d s i"
      proof (cases "persisted_index d2 s i")
        case None
        then have "persisted_index d' s i = None" using only[of s i] ne by (cases "persisted_index d' s i") auto
        with None d2[of s i] ne show ?thesis by simp
      next
        case (Some a)
        then show ?thesis using keep[of s i] d2[of s i] ne by simp
      qed
    qed
    have D1: "(persisted_index d' ?sn i \<noteq> None) = (i \<in> index_name ` set idxs)"
    proof
      assume "persisted_index d' ?sn i \<noteq> None"
      from only[OF this] show "i \<in> index_name ` set idxs"
        using d2[of ?sn i] by (auto split: if_splits)
    next
      assume a: "i \<in> index_name ` set idxs"
      show "persisted_index d' ?sn i \<noteq> None"
      proof (cases "persisted_index d ?sn i")
        case None
        then show ?thesis using made[OF a] by simp
      next
        case (Some x)
        then have "persisted_index d2 ?sn i \<noteq> None" using d2[of ?sn i] a by simp
        then show ?thesis using keep[of ?sn i] by simp
      qed
    qed
    have D2: "persisted_index d ?sn i \<noteq> None \<longrightarrow> i \<in> index_name ` set idxs \<longrightarrow>
             persisted_index d' ?sn i = persisted_index d ?sn i"
    proof (intro impI)
      assume a: "persisted_index d ?sn i \<noteq> None" "i \<in> index_name ` set idxs"
      then have e: "persisted_index d2 ?sn i = persisted_index d ?sn i" using d2[of ?sn i] by simp
      with a keep[of ?sn i] show "persisted_index d' ?sn i = persisted_index d ?sn i" by simp
    qed
    from A B D1 D2 Some show ?thesis by simp
  qed
  from rest show "dom (persisted_store d') = insert ?sn (dom (persisted_store d))" by simp
  from rest show "s \<noteq> ?sn \<Longrightarrow> persisted_index d' s i = persisted_index d s i" by simp
  from rest show "store_indexes ss = Some idxs \<Longrightarrow>
           (persisted_index d' ?sn i \<noteq> None) = (i \<in> index_name ` set idxs)" by simp
  from rest show "store_indexes ss = Some idxs \<Longrightarrow> persisted_index d ?sn i \<noteq> None \<Longrightarrow>
           i \<in> index_name ` set idxs \<Longrightarrow>
           persisted_index d' ?sn i = persisted_index d ?sn i" by simp
qed


lemma reconcile_stores_Inr:
  assumes "reconcile_stores existing stores d = Inr d'" "distinct (map store_name stores)"
  shows "dom (persisted_store d') = dom (persisted_store d) \<union> store_name ` set stores
    \<and> (\<forall>s i. s \<notin> store_name ` set stores \<longrightarrow> persisted_index d' s i = persisted_index d s i)
    \<and> (\<forall>ss \<in> set stores. \<forall>i.
          (store_indexes ss = None \<longrightarrow>
             persisted_index d' (store_name ss) i = persisted_index d (store_name ss) i)
        \<and> (\<forall>idxs. store_indexes ss = Some idxs \<longrightarrow>
             ((persisted_index d' (store_name ss) i \<noteq> None) = (i \<in> index_name ` set idxs))
           \<and> (persisted_index d (store_name ss) i \<noteq> None \<longrightarrow> i \<in> index_name ` set idxs \<longrightarrow>
                 persisted_index d' (store_name ss) i = persisted_index d (store_name ss) i)))"
  using assms
proof (induction stores arbitrary: d)
  case Nil
  then show ?case by simp
next
  case (Cons x rest)
  from Cons.prems obtain d1 where one: "reconcile_store existing x d = Inr d1"
    and more: "reconcile_stores existing rest d1 = Inr d'"
    by (auto split: sum.splits)
  from Cons.prems have dist: "distinct (map store_name rest)"
    and fresh: "store_name x \<notin> store_name ` set rest" by auto
  note ih = Cons.IH[OF more dist]
  note r = reconcile_store_Inr[OF one]
  have later: "\<And>i. persisted_index d' (store_name x) i = persisted_index d1 (store_name x) i"
    using ih fresh by blast
  have A: "dom (persisted_store d') = dom (persisted_store d) \<union> store_name ` set (x # rest)"
    using ih r(1) by auto
  have B: "\<forall>s i. s \<notin> store_name ` set (x # rest) \<longrightarrow> persisted_index d' s i = persisted_index d s i"
  proof (intro allI impI)
    fix s i assume a: "s \<notin> store_name ` set (x # rest)"
    then have "s \<noteq> store_name x" and "s \<notin> store_name ` set rest" by auto
    then show "persisted_index d' s i = persisted_index d s i"
      using ih r(2)[of s i] by simp
  qed
  have C: "\<forall>ss \<in> set (x # rest). \<forall>i.
          (store_indexes ss = None \<longrightarrow>
             persisted_index d' (store_name ss) i = persisted_index d (store_name ss) i)
        \<and> (\<forall>idxs. store_indexes ss = Some idxs \<longrightarrow>
             ((persisted_index d' (store_name ss) i \<noteq> None) = (i \<in> index_name ` set idxs))
           \<and> (persisted_index d (store_name ss) i \<noteq> None \<longrightarrow> i \<in> index_name ` set idxs \<longrightarrow>
                 persisted_index d' (store_name ss) i = persisted_index d (store_name ss) i))"
  proof (intro ballI allI)
    fix ss i assume mem: "ss \<in> set (x # rest)"
    show "(store_indexes ss = None \<longrightarrow>
             persisted_index d' (store_name ss) i = persisted_index d (store_name ss) i)
        \<and> (\<forall>idxs. store_indexes ss = Some idxs \<longrightarrow>
             ((persisted_index d' (store_name ss) i \<noteq> None) = (i \<in> index_name ` set idxs))
           \<and> (persisted_index d (store_name ss) i \<noteq> None \<longrightarrow> i \<in> index_name ` set idxs \<longrightarrow>
                 persisted_index d' (store_name ss) i = persisted_index d (store_name ss) i))"
    proof (cases "ss = x")
      case True
      show ?thesis
        unfolding True later
        using r(3)[of i] r(4)[of _ i] r(5)[of _ i] by blast
    next
      case False
      with mem have inrest: "ss \<in> set rest" by simp
      then have "store_name ss \<in> store_name ` set rest" by (rule imageI)
      with fresh have "store_name ss \<noteq> store_name x" by metis
      then have same: "\<And>j. persisted_index d1 (store_name ss) j = persisted_index d (store_name ss) j"
        using r(2) by simp
      from ih inrest have "(store_indexes ss = None \<longrightarrow>
             persisted_index d' (store_name ss) i = persisted_index d1 (store_name ss) i)
        \<and> (\<forall>idxs. store_indexes ss = Some idxs \<longrightarrow>
             ((persisted_index d' (store_name ss) i \<noteq> None) = (i \<in> index_name ` set idxs))
           \<and> (persisted_index d1 (store_name ss) i \<noteq> None \<longrightarrow> i \<in> index_name ` set idxs \<longrightarrow>
                 persisted_index d' (store_name ss) i = persisted_index d1 (store_name ss) i))"
        by blast
      then show ?thesis unfolding same .
    qed
  qed
  from A B C show ?case by blast
qed


lemma schema_management_Inr:
  assumes "schema_management stores d = Inr d'" "distinct (map store_name stores)"
  shows "dom (persisted_store d') = store_name ` set stores"
    and "ss \<in> set stores \<Longrightarrow> store_indexes ss = None \<Longrightarrow>
           persisted_index d' (store_name ss) i = persisted_index d (store_name ss) i"
    and "ss \<in> set stores \<Longrightarrow> store_indexes ss = Some idxs \<Longrightarrow>
           (persisted_index d' (store_name ss) i \<noteq> None) = (i \<in> index_name ` set idxs)"
    and "ss \<in> set stores \<Longrightarrow> store_indexes ss = Some idxs \<Longrightarrow>
           persisted_index d (store_name ss) i \<noteq> None \<Longrightarrow> i \<in> index_name ` set idxs \<Longrightarrow>
           persisted_index d' (store_name ss) i = persisted_index d (store_name ss) i"
    and "s \<notin> store_name ` set stores \<Longrightarrow> persisted_index d' s i = None"
proof -
  from assms(1) obtain d0
    where del: "delete_stores (objectStoreNames d) (map store_name stores) d = Inr d0"
      and rec: "reconcile_stores (objectStoreNames d) stores d0 = Inr d'"
    by (auto simp: schema_management_def Let_def split: sum.splits)
  note dl = delete_stores_rules[OF del]
  note rc = reconcile_stores_Inr[OF rec assms(2)]
  have d0_decl: "\<And>t j. t \<in> store_name ` set stores \<Longrightarrow> persisted_index d0 t j = persisted_index d t j"
    by (simp add: dl(2))
  have d0_other: "\<And>t j. t \<notin> store_name ` set stores \<Longrightarrow> persisted_index d0 t j = None"
  proof -
    fix t j assume a: "t \<notin> store_name ` set stores"
    show "persisted_index d0 t j = None"
    proof (cases "t \<in> set (objectStoreNames d)")
      case True
      with a show ?thesis by (simp add: dl(2))
    next
      case False
      then have "persisted_store d t = None" by (auto simp: names_dom)
      then have "persisted_index d t j = None" by (simp add: persisted_index_alt)
      with False show ?thesis by (simp add: dl(2))
    qed
  qed
  show "dom (persisted_store d') = store_name ` set stores"
    using rc dl(1) by (auto simp: names_dom)
  show "s \<notin> store_name ` set stores \<Longrightarrow> persisted_index d' s i = None"
    using rc d0_other by simp
  show "ss \<in> set stores \<Longrightarrow> store_indexes ss = None \<Longrightarrow>
           persisted_index d' (store_name ss) i = persisted_index d (store_name ss) i"
    using rc d0_decl[of "store_name ss"] by simp
  show "ss \<in> set stores \<Longrightarrow> store_indexes ss = Some idxs \<Longrightarrow>
           (persisted_index d' (store_name ss) i \<noteq> None) = (i \<in> index_name ` set idxs)"
    using rc by blast
  show "ss \<in> set stores \<Longrightarrow> store_indexes ss = Some idxs \<Longrightarrow>
           persisted_index d (store_name ss) i \<noteq> None \<Longrightarrow> i \<in> index_name ` set idxs \<Longrightarrow>
           persisted_index d' (store_name ss) i = persisted_index d (store_name ss) i"
    using rc d0_decl[of "store_name ss"] by simp
qed

lemma deleteObjectStore_version: "deleteObjectStore n d = Inr d' \<Longrightarrow> version d' = version d"
  by (auto simp: deleteObjectStore_def split: if_splits)

lemma createObjectStore_version: "createObjectStore n kp ai d = Inr d' \<Longrightarrow> version d' = version d"
  by (auto simp: createObjectStore_def split: if_splits)

lemma createIndex_version: "createIndex sn n kp opts d = Inr d' \<Longrightarrow> version d' = version d"
  by (auto simp: createIndex_def split: if_splits option.splits)

lemma deleteIndex_version: "deleteIndex sn n d = Inr d' \<Longrightarrow> version d' = version d"
  by (auto simp: deleteIndex_def split: if_splits option.splits)

lemma delete_stores_version:
  "delete_stores existing desired d = Inr d' \<Longrightarrow> version d' = version d"
  by (induction existing arbitrary: d)
     (auto split: if_splits sum.splits dest: deleteObjectStore_version)

lemma delete_indexes_version:
  "delete_indexes existing desired sn d = Inr d' \<Longrightarrow> version d' = version d"
  by (induction existing arbitrary: d)
     (auto split: if_splits sum.splits dest: deleteIndex_version)

lemma create_indexes_version:
  "create_indexes idxs existing sn d = Inr d' \<Longrightarrow> version d' = version d"
  by (induction idxs arbitrary: d)
     (auto split: if_splits sum.splits dest: createIndex_version)

lemma create_or_fetch_version:
  "create_or_fetch existing ss d = Inr (d1, st) \<Longrightarrow> version d1 = version d"
  by (auto simp: create_or_fetch_def split: if_splits sum.splits dest: createObjectStore_version)

lemma reconcile_store_version:
  assumes "reconcile_store existing ss d = Inr d'"
  shows "version d' = version d"
proof -
  from assms obtain d1 st where cf: "create_or_fetch existing ss d = Inr (d1, st)"
    by (auto simp: reconcile_store_def split: sum.splits)
  show ?thesis
  proof (cases "store_indexes ss")
    case None
    with assms cf have "d' = d1" by (simp add: reconcile_store_def)
    with create_or_fetch_version[OF cf] show ?thesis by simp
  next
    case (Some idxs)
    with assms cf obtain d2
      where del: "delete_indexes (indexNames st) (map index_name idxs) (store_name ss) d1 = Inr d2"
        and cre: "create_indexes idxs (indexNames st) (store_name ss) d2 = Inr d'"
      by (auto simp: reconcile_store_def Let_def split: sum.splits)
    from create_indexes_version[OF cre] delete_indexes_version[OF del]
      create_or_fetch_version[OF cf]
    show ?thesis by simp
  qed
qed

lemma reconcile_stores_version:
  "reconcile_stores existing stores d = Inr d' \<Longrightarrow> version d' = version d"
proof (induction stores arbitrary: d)
  case Nil
  then show ?case by simp
next
  case (Cons x rest)
  then obtain d1 where one: "reconcile_store existing x d = Inr d1"
    and more: "reconcile_stores existing rest d1 = Inr d'"
    by (auto split: sum.splits)
  from Cons.IH[OF more] reconcile_store_version[OF one] show ?case by simp
qed

lemma schema_management_version:
  assumes "schema_management stores d = Inr d'"
  shows "version d' = version d"
proof -
  from assms obtain d0
    where del: "delete_stores (objectStoreNames d) (map store_name stores) d = Inr d0"
      and rec: "reconcile_stores (objectStoreNames d) stores d0 = Inr d'"
    by (auto simp: schema_management_def Let_def split: sum.splits)
  from reconcile_stores_version[OF rec] delete_stores_version[OF del] show ?thesis by simp
qed

lemma persisted_index_version [simp]:
  "persisted_index (d\<lparr>version := v\<rparr>) = persisted_index d"
  by (rule ext)+ (simp add: persisted_index_def)

lemma openDB_Fulfilled:
  assumes "openDB v stores d = (d', Fulfilled h)"
  shows "(v = version d \<and> d' = d) \<or>
         (version d < v \<and> schema_management stores (d\<lparr>version := v\<rparr>) = Inr d' \<and> version d' = v)"
proof (cases "v = 0 \<or> v < version d")
  case True
  with assms show ?thesis by (auto simp: openDB_def split: if_splits)
next
  case nz: False
  show ?thesis
  proof (cases "v = version d")
    case True
    with assms nz show ?thesis by (auto simp: openDB_def)
  next
    case False
    with nz have lt: "version d < v" by auto
    with assms nz False obtain r where r: "schema_management stores (d\<lparr>version := v\<rparr>) = Inr r"
      by (cases "schema_management stores (d\<lparr>version := v\<rparr>)") (auto simp: openDB_def)
    with assms nz False have "d' = r" by (auto simp: openDB_def)
    with r lt schema_management_version[OF r] show ?thesis by simp
  qed
qed

lemma persisted_store_version [simp]:
  "persisted_store (d\<lparr>version := v\<rparr>) = persisted_store d"
  by (simp add: persisted_store_def)

lemma persisted_index_names_set:
  "set (persisted_index_names d sn) = {i. persisted_index d sn i \<noteq> None}"
proof (cases "persisted_store d sn")
  case None
  then show ?thesis by (simp add: persisted_index_names_def persisted_index_alt)
next
  case (Some st)
  then show ?thesis
    by (auto simp: persisted_index_names_def persisted_index_alt indexNames_dom)
qed

lemma objectStoreNames_version [simp]:
  "objectStoreNames (d\<lparr>version := v\<rparr>) = objectStoreNames d"
  by (simp add: objectStoreNames_def)

text \<open>
  Claim C2, as stated, fails.  \<open>users\<close> is first declared with the index \<open>by_age\<close> and
  then, at a higher version, without an \<open>indexes\<close> property: both opens succeed, the
  index stays, and the declaration names no index for \<open>users\<close>.
\<close>

theorem upgrade_index_names_counterexample:
  "openDB 1 users_with_by_age fresh_database
     = (\<lparr>version = 1, objectStores = [(''users'', \<lparr>os_keyPath = Some (Path ''id''),
           os_autoIncrement = True,
           os_indexes = [(''by_age'', \<lparr>ix_keyPath = Path ''age'', ix_unique = False,
                            ix_multiEntry = False\<rparr>)]\<rparr>)]\<rparr>,
        Fulfilled \<lparr>version = 1, objectStores = [(''users'', \<lparr>os_keyPath = Some (Path ''id''),
           os_autoIncrement = True,
           os_indexes = [(''by_age'', \<lparr>ix_keyPath = Path ''age'', ix_unique = False,
                            ix_multiEntry = False\<rparr>)]\<rparr>)]\<rparr>)
   \<and> snd (openDB 2 users_without_indexes (fst (openDB 1 users_with_by_age fresh_database)))
       = Fulfilled (fst (openDB 2 users_without_indexes (fst (openDB 1 users_with_by_age fresh_database))))
   \<and> persisted_index_names
        (fst (openDB 2 users_without_indexes (fst (openDB 1 users_with_by_age fresh_database))))
        ''users'' = [''by_age'']
   \<and> declared_index_names users_without_indexes ''users'' = []"
  by (simp add: openDB_def users_with_by_age_def users_without_indexes_def fresh_database_def
        schema_management_def reconcile_store_def create_or_fetch_def createObjectStore_def
        createIndex_def objectStore_def
        objectStoreNames_def indexNames_def persisted_index_names_def persisted_store_def
        declared_index_names_def declared_store_def new_index_def is_true_def Let_def)

text \<open>
  Claim C2, amended.  Let a first schema be applied to a new database and a second one,
  with distinct store names, at a higher version, both opens succeeding.  Then the
  persisted store names are those of the second schema; a store declared with an
  \<open>indexes\<close> property has exactly the declared index names, and a store declared without
  one keeps the index names it had; and every index persisted both before and after the
  second upgrade has kept its key path and options.
\<close>

theorem upgrade_matches_declaration:
  assumes "openDB v1 S1 fresh_database = (d1, Fulfilled h1)"
      and "openDB v2 S2 d1 = (d2, Fulfilled h2)"
      and "v1 < v2"
      and "distinct (map store_name S2)"
  shows "set (objectStoreNames d2) = set (map store_name S2)
       \<and> (\<forall>ss \<in> set S2.
            case store_indexes ss of
              Some idxs \<Rightarrow> set (persisted_index_names d2 (store_name ss)) = set (map index_name idxs)
            | None \<Rightarrow> set (persisted_index_names d2 (store_name ss))
                        = set (persisted_index_names d1 (store_name ss)))
       \<and> (\<forall>sn i. persisted_index d1 sn i \<noteq> None \<and> persisted_index d2 sn i \<noteq> None
              \<longrightarrow> persisted_index d2 sn i = persisted_index d1 sn i)"
proof -
  from openDB_Fulfilled[OF assms(1)] have v1: "version d1 = v1"
    by (auto simp: fresh_database_def)
  with openDB_Fulfilled[OF assms(2)] assms(3)
  have up: "schema_management S2 (d1\<lparr>version := v2\<rparr>) = Inr d2" by auto
  note r = schema_management_Inr[OF up assms(4)]
  have names: "set (objectStoreNames d2) = set (map store_name S2)"
    using r(1) by (simp add: names_dom)
  have idx: "\<forall>ss \<in> set S2.
            case store_indexes ss of
              Some idxs \<Rightarrow> set (persisted_index_names d2 (store_name ss)) = set (map index_name idxs)
            | None \<Rightarrow> set (persisted_index_names d2 (store_name ss))
                        = set (persisted_index_names d1 (store_name ss))"
  proof
    fix ss assume mem: "ss \<in> set S2"
    show "case store_indexes ss of
              Some idxs \<Rightarrow> set (persisted_index_names d2 (store_name ss)) = set (map index_name idxs)
            | None \<Rightarrow> set (persisted_index_names d2 (store_name ss))
                        = set (persisted_index_names d1 (store_name ss))"
    proof (cases "store_indexes ss")
      case None
      then show ?thesis using r(2)[OF mem None] by (simp add: persisted_index_names_set)
    next
      case (Some idxs)
      then show ?thesis using r(3)[OF mem Some] by (simp add: persisted_index_names_set)
    qed
  qed
  have keep: "\<forall>sn i. persisted_index d1 sn i \<noteq> None \<and> persisted_index d2 sn i \<noteq> None
              \<longrightarrow> persisted_index d2 sn i = persisted_index d1 sn i"
  proof (intro allI impI)
    fix sn i assume a: "persisted_index d1 sn i \<noteq> None \<and> persisted_index d2 sn i \<noteq> None"
    have "sn \<in> store_name ` set S2"
    proof (rule ccontr)
      assume "sn \<notin> store_name ` set S2"
      from r(5)[OF this, of i] a show False by simp
    qed
    then obtain ss where mem: "ss \<in> set S2" and sn: "sn = store_name ss" by auto
    show "persisted_index d2 sn i = persisted_index d1 sn i"
    proof (cases "store_indexes ss")
      case None
      then show ?thesis using r(2)[OF mem None, of i] sn by simp
    next
      case (Some idxs)
      from a sn have "i \<in> index_name ` set idxs" using r(3)[OF mem Some, of i] by simp
      with a sn r(4)[OF mem Some, of i] show ?thesis by simp
    qed
  qed
  from names idx keep show ?thesis by blast
qed

theorem upgrade_matches_declaration_witness:
  "(1::nat) < 2 \<and> distinct (map store_name users_by_age_redeclared)
   \<and> set (objectStoreNames
        (fst (openDB 2 users_by_age_redeclared (fst (openDB 1 users_with_by_age fresh_database)))))
     = {''users'', ''products''}
   \<and> set (persisted_index_names
        (fst (openDB 2 users_by_age_redeclared (fst (openDB 1 users_with_by_age fresh_database))))
        ''users'') = {''by_age'', ''by_city''}"
proof -
  let ?d1 = "\<lparr>version = 1, objectStores = [(''users'', \<lparr>os_keyPath = Some (Path ''id''),
           os_autoIncrement = True,
           os_indexes = [(''by_age'', \<lparr>ix_keyPath = Path ''age'', ix_unique = False,
                            ix_multiEntry = False\<rparr>)]\<rparr>)]\<rparr>"
  have o1: "openDB 1 users_with_by_age fresh_database = (?d1, Fulfilled ?d1)"
    by (simp add: openDB_def users_with_by_age_def fresh_database_def
        schema_management_def reconcile_store_def create_or_fetch_def createObjectStore_def
        createIndex_def objectStoreNames_def indexNames_def new_index_def is_true_def Let_def)
  obtain d2 where o2: "openDB 2 users_by_age_redeclared ?d1 = (d2, Fulfilled d2)"
    by (simp add: openDB_def users_by_age_redeclared_def
        schema_management_def reconcile_store_def create_or_fetch_def createObjectStore_def
        createIndex_def objectStore_def
        objectStoreNames_def indexNames_def new_index_def is_true_def Let_def)
  have lt: "(1::nat) < 2" by simp
  have dist: "distinct (map store_name users_by_age_redeclared)"
    by (simp add: users_by_age_redeclared_def)
  from upgrade_matches_declaration[OF o1 o2 lt dist] o1 o2 lt dist
  show ?thesis by (auto simp: users_by_age_redeclared_def)
qed

text \<open>
  An exception thrown while stores are deleted, or while any one declared store is
  reconciled, leaves the whole \<open>try\<close> block.
\<close>

lemma reconcile_stores_throws:
  assumes "reconcile_stores existing before d = Inr d1"
      and "reconcile_store existing storeSchema d1 = Inl x"
  shows "reconcile_stores existing (before @ storeSchema # after) d = Inl x"
  using assms
proof (induction before arbitrary: d)
  case Nil
  then show ?case by simp
next
  case (Cons s rest)
  then obtain d0 where "reconcile_store existing s d = Inr d0"
    and "reconcile_stores existing rest d0 = Inr d1"
    by (auto split: sum.splits)
  with Cons.IH[of d0] Cons.prems(2) show ?case by simp
qed

lemma schema_management_throws:
  "delete_stores (objectStoreNames d) (map store_name stores) d = Inl x \<Longrightarrow>
     schema_management stores d = Inl x"
  "delete_stores (objectStoreNames d) (map store_name stores) d = Inr d0 \<Longrightarrow>
     reconcile_stores (objectStoreNames d) stores d0 = Inl x \<Longrightarrow>
     schema_management stores d = Inl x"
  by (simp_all add: schema_management_def)

text \<open>
  Claim C3.  If a step of the reconciliation throws, whatever the steps before it have
  changed, the database stays as it was before the upgrade and the open is rejected with
  the schema-upgrade failure.
\<close>

theorem upgrade_exception_aborts:
  assumes "version d < v"
      and "schema_management stores (d\<lparr>version := v\<rparr>) = Inl (e, partial)"
  shows "openDB v stores d = (d, Rejected (SchemaUpgradeFailed e))"
  using assms by (auto simp: openDB_def)

theorem upgrade_exception_aborts_witness:
  "schema_management users_twice (fresh_database\<lparr>version := 1\<rparr>)
     = Inl (ConstraintError,
            \<lparr>version = 1,
             objectStores = [(''users'', \<lparr>os_keyPath = Some (Path ''id''),
                                os_autoIncrement = True, os_indexes = []\<rparr>)]\<rparr>)
   \<and> openDB 1 users_twice fresh_database
     = (fresh_database, Rejected (SchemaUpgradeFailed ConstraintError))"
proof -
  have v: "version fresh_database < 1" by (simp add: fresh_database_def)
  have s: "schema_management users_twice (fresh_database\<lparr>version := 1\<rparr>)
     = Inl (ConstraintError,
            \<lparr>version = 1,
             objectStores = [(''users'', \<lparr>os_keyPath = Some (Path ''id''),
                                os_autoIncrement = True, os_indexes = []\<rparr>)]\<rparr>)"
    by (simp add: users_twice_def users_without_indexes_def fresh_database_def
          schema_management_def reconcile_store_def create_or_fetch_def createObjectStore_def
          objectStoreNames_def is_true_def Let_def)
  from upgrade_exception_aborts[OF v s] s show ?thesis by simp
qed

text \<open>
  Claim C5.  An index that is persisted for a store and whose name is among the indexes
  declared for that store is the same after \<open>openDB\<close>, whatever the declaration says
  about its key path and options.
\<close>

theorem existing_index_left_untouched:
  assumes "distinct (map store_name stores)"
      and "ss \<in> set stores" "store_indexes ss = Some idxs" "i \<in> set (map index_name idxs)"
      and "persisted_index d (store_name ss) i = Some ix"
  shows "persisted_index (fst (openDB v stores d)) (store_name ss) i = Some ix"
proof (cases "v \<noteq> 0 \<and> version d < v")
  case False
  then have "fst (openDB v stores d) = d" by (auto simp: openDB_def)
  with assms(5) show ?thesis by simp
next
  case True
  show ?thesis
  proof (cases "schema_management stores (d\<lparr>version := v\<rparr>)")
    case (Inl x)
    with True have "fst (openDB v stores d) = d" by (auto simp: openDB_def split: prod.splits)
    with assms(5) show ?thesis by simp
  next
    case (Inr d')
    with True have e: "fst (openDB v stores d) = d'" by (auto simp: openDB_def)
    from assms(4) have mem: "i \<in> index_name ` set idxs" by simp
    from assms(5) have "persisted_index (d\<lparr>version := v\<rparr>) (store_name ss) i \<noteq> None" by simp
    from schema_management_Inr(4)[OF Inr assms(1) assms(2) assms(3) this mem] assms(5) e
    show ?thesis by simp
  qed
qed

theorem existing_index_left_untouched_witness:
  "persisted_index (fst (openDB 1 users_with_by_age fresh_database)) ''users'' ''by_age''
     = Some \<lparr>ix_keyPath = Path ''age'', ix_unique = False, ix_multiEntry = False\<rparr>
   \<and> persisted_index
       (fst (openDB 2 users_by_age_redeclared (fst (openDB 1 users_with_by_age fresh_database))))
       ''users'' ''by_age''
     = Some \<lparr>ix_keyPath = Path ''age'', ix_unique = False, ix_multiEntry = False\<rparr>"
proof -
  let ?d = "fst (openDB 1 users_with_by_age fresh_database)"
  let ?ss = "\<lparr>store_name = ''users'', store_keyPath = Some (Path ''id''),
       store_autoIncrement = Some True,
       store_indexes = Some [\<lparr>index_name = ''by_age'', index_keyPath = Path ''years'',
                               index_options = Some \<lparr>unique = Some True, multiEntry = None\<rparr>\<rparr>,
                             \<lparr>index_name = ''by_city'', index_keyPath = Path ''city'',
                               index_options = None\<rparr>]\<rparr>"
  have before: "persisted_index ?d ''users'' ''by_age''
     = Some \<lparr>ix_keyPath = Path ''age'', ix_unique = False, ix_multiEntry = False\<rparr>"
    by (simp add: openDB_def users_with_by_age_def fresh_database_def schema_management_def
          reconcile_store_def create_or_fetch_def createObjectStore_def createIndex_def
          objectStoreNames_def indexNames_def persisted_index_def new_index_def is_true_def Let_def)
  have dist: "distinct (map store_name users_by_age_redeclared)"
    by (simp add: users_by_age_redeclared_def)
  have mem: "?ss \<in> set users_by_age_redeclared" by (simp add: users_by_age_redeclared_def)
  from existing_index_left_untouched[OF dist mem, of _ "''by_age''" ?d _ 2] before
  show ?thesis by simp
qed

end
